theory Spec2Isabelle
  imports Complex_Main "HOL-Library.Word" "HOL-Library.Log_Nat"
begin

unbundle bit_operations_syntax

section \<open>Memory model for C strings\<close>

text \<open>
  A \<open>const char *\<close> is a byte buffer together with a position in it. The buffer is the
  list of all bytes that exist in memory from the start of the string, its terminating
  null byte included. Reading \<open>text[k]\<close> inside the buffer gives the byte, converted
  as the C code converts it (\<open>(unsigned char)\<close> promoted to \<open>int\<close>); reading
  outside the buffer is undefined behaviour in C and is the value \<open>None\<close> here, which
  every function built on \<open>peek\<close> propagates.
\<close>

type_synonym byte = "8 word"

definition peek :: "byte list \<Rightarrow> nat \<Rightarrow> int option" where
  "peek buf k = (if k < length buf then Some (uint (buf ! k)) else None)"

text \<open>\<open>strlen\<close>: the number of bytes before the first null byte; \<open>None\<close> when the
  buffer holds no null byte (the scan leaves the buffer).\<close>

fun strlen :: "byte list \<Rightarrow> nat option" where
  "strlen [] = None"
| "strlen (b # bs) = (if b = 0 then Some 0 else map_option Suc (strlen bs))"

section \<open>Codepoint decoder\<close>

text \<open>
  \<open>GetNextCodepoint(&text[i], &bytesProcessed)\<close> of \<open>text.c\<close>. The result is the
  pair (returned codepoint, value left in \<open>*bytesProcessed\<close>). \<open>code\<close> starts as
  \<open>0x3f\<close> and \<open>*bytesProcessed\<close> as 1; every early \<open>return code\<close> of the source is
  a \<open>Some (0x3f, n)\<close> branch, and the paths that reach the end of the function pass
  through the final test \<open>if (code > 0x10ffff) code = 0x3f\<close>, which is \<open>finish\<close>.
  In the one-octet branch \<open>code = text[0]\<close> reads a \<open>char\<close> that is at most
  \<open>0x7f\<close>, so it equals \<open>octet\<close> whatever the signedness of \<open>char\<close>.
\<close>

definition finish :: "int \<Rightarrow> nat \<Rightarrow> (int \<times> nat) option" where
  "finish code n = Some (if code > 0x10ffff then 0x3f else code, n)"

definition GetNextCodepoint :: "byte list \<Rightarrow> nat \<Rightarrow> (int \<times> nat) option" where
  "GetNextCodepoint text i =
    (case peek text i of None \<Rightarrow> None | Some octet \<Rightarrow>
      if octet \<le> 0x7f then finish octet 1
      else if octet AND 0xe0 = 0xc0 then
        (case peek text (i + 1) of None \<Rightarrow> None | Some octet1 \<Rightarrow>
          if octet1 = 0 \<or> drop_bit 6 octet1 \<noteq> 2 then Some (0x3f, 2)
          else if octet \<ge> 0xc2 \<and> octet \<le> 0xdf
            then finish (push_bit 6 (octet AND 0x1f) OR (octet1 AND 0x3f)) 2
          else finish 0x3f 1)
      else if octet AND 0xf0 = 0xe0 then
        (case peek text (i + 1) of None \<Rightarrow> None | Some octet1 \<Rightarrow>
          if octet1 = 0 \<or> drop_bit 6 octet1 \<noteq> 2 then Some (0x3f, 2)
          else
            (case peek text (i + 2) of None \<Rightarrow> None | Some octet2 \<Rightarrow>
              if octet2 = 0 \<or> drop_bit 6 octet2 \<noteq> 2 then Some (0x3f, 3)
              else if (octet = 0xe0 \<and> \<not> (octet1 \<ge> 0xa0 \<and> octet1 \<le> 0xbf)) \<or>
                      (octet = 0xed \<and> \<not> (octet1 \<ge> 0x80 \<and> octet1 \<le> 0x9f))
                then Some (0x3f, 2)
              else if octet \<ge> 0xe0 \<and> (0::int) \<le> 0xef
                then finish (push_bit 12 (octet AND 0xf) OR push_bit 6 (octet1 AND 0x3f)
                             OR (octet2 AND 0x3f)) 3
              else finish 0x3f 1))
      else if octet AND 0xf8 = 0xf0 then
        (if octet > 0xf4 then Some (0x3f, 1)
         else
          (case peek text (i + 1) of None \<Rightarrow> None | Some octet1 \<Rightarrow>
            if octet1 = 0 \<or> drop_bit 6 octet1 \<noteq> 2 then Some (0x3f, 2)
            else
              (case peek text (i + 2) of None \<Rightarrow> None | Some octet2 \<Rightarrow>
                if octet2 = 0 \<or> drop_bit 6 octet2 \<noteq> 2 then Some (0x3f, 3)
                else
                  (case peek text (i + 3) of None \<Rightarrow> None | Some octet3 \<Rightarrow>
                    if octet3 = 0 \<or> drop_bit 6 octet3 \<noteq> 2 then Some (0x3f, 4)
                    else if (octet = 0xf0 \<and> \<not> (octet1 \<ge> 0x90 \<and> octet1 \<le> 0xbf)) \<or>
                            (octet = 0xf4 \<and> \<not> (octet1 \<ge> 0x80 \<and> octet1 \<le> 0x8f))
                      then Some (0x3f, 2)
                    else if octet \<ge> 0xf0
                      then finish (push_bit 18 (octet AND 0x7) OR push_bit 12 (octet1 AND 0x3f)
                                   OR push_bit 6 (octet2 AND 0x3f) OR (octet3 AND 0x3f)) 4
                    else finish 0x3f 1))))
      else finish 0x3f 1)"

subsection \<open>The UTF-8 table, as a reference\<close>

text \<open>
  The table of RFC 3629 that the source quotes above the decoder, written as an encoder:
  \<^verbatim>\<open>
  0000 0000-0000 007F | 0xxxxxxx
  0000 0080-0000 07FF | 110xxxxx 10xxxxxx
  0000 0800-0000 FFFF | 1110xxxx 10xxxxxx 10xxxxxx
  0001 0000-0010 FFFF | 11110xxx 10xxxxxx 10xxxxxx 10xxxxxx
  \<close>
  The repository has no encoder; \<open>utf8_encode\<close> is the standard encoding that the decoder
  is compared with. \<open>scalar_value\<close> is the set of Unicode scalar values.
\<close>

definition utf8_encode :: "int \<Rightarrow> byte list" where
  "utf8_encode c =
    (if c \<le> 0x7f then [word_of_int c]
     else if c \<le> 0x7ff then [word_of_int (0xc0 + c div 64), word_of_int (0x80 + c mod 64)]
     else if c \<le> 0xffff then
       [word_of_int (0xe0 + c div 4096), word_of_int (0x80 + c div 64 mod 64),
        word_of_int (0x80 + c mod 64)]
     else
       [word_of_int (0xf0 + c div 262144), word_of_int (0x80 + c div 4096 mod 64),
        word_of_int (0x80 + c div 64 mod 64), word_of_int (0x80 + c mod 64)])"

definition scalar_value :: "int \<Rightarrow> bool" where
  "scalar_value c = (0 \<le> c \<and> c \<le> 0x10ffff \<and> \<not> (0xd800 \<le> c \<and> c \<le> 0xdfff))"

text \<open>
  The nominal length of the sequence that a lead octet announces (the bit patterns of the
  table, which are also the tests of the decoder's branches), and the bytes that the table
  and the decoder's range comments accept as continuation number \<open>k\<close> after a lead:
  a tail byte \<open>0x80..0xBF\<close>, further restricted for the first continuation after the
  leads \<open>0xE0\<close>, \<open>0xED\<close>, \<open>0xF0\<close> and \<open>0xF4\<close>. A null byte is never a tail byte.
\<close>

definition tail :: "int \<Rightarrow> bool" where
  "tail b = (0x80 \<le> b \<and> b \<le> 0xbf)"

definition nominal_length :: "int \<Rightarrow> nat" where
  "nominal_length octet =
    (if octet AND 0xe0 = 0xc0 then 2
     else if octet AND 0xf0 = 0xe0 then 3
     else if octet AND 0xf8 = 0xf0 then 4
     else 1)"

definition valid_cont :: "int \<Rightarrow> nat \<Rightarrow> int \<Rightarrow> bool" where
  "valid_cont lead k b =
    (tail b \<and>
     (k \<noteq> 1 \<or>
       ((lead \<noteq> 0xe0 \<or> 0xa0 \<le> b) \<and> (lead \<noteq> 0xed \<or> b \<le> 0x9f) \<and>
        (lead \<noteq> 0xf0 \<or> 0x90 \<le> b) \<and> (lead \<noteq> 0xf4 \<or> b \<le> 0x8f))))"

text \<open>
  A multi-byte sequence at position \<open>i\<close> is truncated by the null byte at position \<open>z\<close>
  when its lead octet is one the decoder accepts as the start of a 2-, 3- or 4-byte
  sequence (\<open>0xC0..0xF4\<close>), the null comes before the sequence is complete, and every
  byte between the lead and the null is a tail byte.
\<close>

definition truncated_at :: "byte list \<Rightarrow> nat \<Rightarrow> nat \<Rightarrow> bool" where
  "truncated_at text i z =
    (i < z \<and> z < length text \<and> text ! z = 0 \<and>
     0xc0 \<le> uint (text ! i) \<and> uint (text ! i) \<le> 0xf4 \<and>
     z - i < nominal_length (uint (text ! i)) \<and>
     (\<forall>j. i < j \<and> j < z \<longrightarrow> tail (uint (text ! j))))"

section \<open>Single-precision arithmetic\<close>

text \<open>
  A C \<open>float\<close> is an IEEE 754 binary32 number: a finite value \<open>m \<times> 2\<^sup>q\<close> with
  \<open>\<bar>m\<bar> < 2\<^sup>2\<^sup>4\<close> and \<open>-149 \<le> q \<le> 104\<close>, one of the two infinities, or a NaN. Every
  operation gives the exact result rounded to the nearest such value, a tie going to the
  even significand, and a result of magnitude \<open>2\<^sup>1\<^sup>2\<^sup>8\<close> or more after rounding becomes an
  infinity (each operation is rounded on its own, \<open>FLT_EVAL_METHOD\<close> 0). \<open>round32\<close> is
  that rounding. For \<open>x > 0\<close>, \<open>binade x\<close> is the exponent \<open>e\<close> with
  \<open>2\<^sup>e \<le> x < 2\<^sup>e\<^sup>+\<^sup>1\<close>; the spacing of the values around \<open>x\<close> is \<open>2\<^sup>e\<^sup>-\<^sup>2\<^sup>3\<close>, and
  \<open>2\<^sup>-\<^sup>1\<^sup>4\<^sup>9\<close> below \<open>2\<^sup>-\<^sup>1\<^sup>2\<^sup>6\<close>. The two zeros are one value here: the comparisons of C
  do not tell them apart, and no divisor in \<open>text.c\<close> is a computed zero (the divisors
  are \<open>(float)font.baseSize\<close>, the conversion of an \<open>int\<close>, and \<open>logf(2)\<close>). The NaNs
  are one value as well.
\<close>

datatype float = Finite real | PInf | NInf | NaN

definition pow2 :: "int \<Rightarrow> real" where
  "pow2 k = (if 0 \<le> k then 2 ^ nat k else 1 / 2 ^ nat (- k))"

definition binade :: "real \<Rightarrow> int" where
  "binade x = (if 1 \<le> x then bitlen \<lfloor>x\<rfloor> - 1 else - bitlen (\<lceil>1 / x\<rceil> - 1))"

definition round_even :: "real \<Rightarrow> int" where
  "round_even y =
    (let f = \<lfloor>y\<rfloor>; d = y - of_int f
     in if d < 1 / 2 then f else if 1 / 2 < d then f + 1 else if even f then f else f + 1)"

definition round32_pos :: "real \<Rightarrow> float" where
  "round32_pos x =
    (let q = max (binade x) (- 126) - 23;
         y = of_int (round_even (x / pow2 q)) * pow2 q
     in if 2 ^ 128 \<le> y then PInf else Finite y)"

fun fneg :: "float \<Rightarrow> float" where
  "fneg (Finite x) = Finite (- x)"
| "fneg PInf = NInf"
| "fneg NInf = PInf"
| "fneg NaN = NaN"

definition round32 :: "real \<Rightarrow> float" where
  "round32 x =
    (if x = 0 then Finite 0 else if 0 < x then round32_pos x else fneg (round32_pos (- x)))"

text \<open>A value that a \<open>float\<close> variable can hold: rounding leaves it as it is.\<close>

fun representable :: "float \<Rightarrow> bool" where
  "representable (Finite x) = (round32 x = Finite x)"
| "representable PInf = True"
| "representable NInf = True"
| "representable NaN = True"

text \<open>
  Addition, multiplication, division and the comparison \<open><\<close>, with the special cases
  of IEEE 754: a NaN operand gives a NaN (and a false comparison), \<open>\<infinity> - \<infinity>\<close>,
  \<open>0 \<times> \<infinity>\<close>, \<open>\<infinity> / \<infinity>\<close> and \<open>0 / 0\<close> give a NaN, and a non-zero value divided by zero
  gives the infinity of its sign.
\<close>

fun fadd :: "float \<Rightarrow> float \<Rightarrow> float" where
  "fadd (Finite x) (Finite y) = round32 (x + y)"
| "fadd NaN b = NaN"
| "fadd a NaN = NaN"
| "fadd PInf NInf = NaN"
| "fadd NInf PInf = NaN"
| "fadd PInf b = PInf"
| "fadd NInf b = NInf"
| "fadd (Finite x) b = b"

fun fsign :: "float \<Rightarrow> int" where
  "fsign (Finite x) = (if x < 0 then - 1 else if x = 0 then 0 else 1)"
| "fsign PInf = 1"
| "fsign NInf = - 1"
| "fsign NaN = 0"

definition inf_of_sign :: "int \<Rightarrow> float" where
  "inf_of_sign s = (if s = 0 then NaN else if 0 < s then PInf else NInf)"

fun fmul :: "float \<Rightarrow> float \<Rightarrow> float" where
  "fmul (Finite x) (Finite y) = round32 (x * y)"
| "fmul NaN b = NaN"
| "fmul a NaN = NaN"
| "fmul a b = inf_of_sign (fsign a * fsign b)"

fun fdiv :: "float \<Rightarrow> float \<Rightarrow> float" where
  "fdiv (Finite x) (Finite y) = (if y = 0 then inf_of_sign (fsign (Finite x)) else round32 (x / y))"
| "fdiv NaN b = NaN"
| "fdiv a NaN = NaN"
| "fdiv (Finite x) b = Finite 0"
| "fdiv a (Finite y) = inf_of_sign (fsign a * (if y < 0 then - 1 else 1))"
| "fdiv a b = NaN"

fun flt :: "float \<Rightarrow> float \<Rightarrow> bool" where
  "flt (Finite x) (Finite y) = (x < y)"
| "flt NaN b = False"
| "flt a NaN = False"
| "flt a NInf = False"
| "flt PInf b = False"
| "flt a b = True"

text \<open>The C idiom \<open>if (a < b) a = b\<close>, as a function of the old \<open>a\<close> and of \<open>b\<close>.\<close>

definition fmax :: "float \<Rightarrow> float \<Rightarrow> float" where
  "fmax a b = (if flt a b then b else a)"

text \<open>
  The conversion of an \<open>int\<close> to \<open>float\<close> rounds; the conversion \<open>(int)\<close> of a \<open>float\<close>
  truncates towards zero and is undefined behaviour (\<open>None\<close>) for a NaN, an infinity
  and a value whose integral part is outside \<open>int\<close>. The division of two \<open>int\<close>s
  truncates towards zero as well.
\<close>

definition float_of_int :: "int \<Rightarrow> float" where
  "float_of_int n = round32 (real_of_int n)"

definition c_trunc :: "real \<Rightarrow> int" where
  "c_trunc r = (if 0 \<le> r then \<lfloor>r\<rfloor> else \<lceil>r\<rceil>)"

fun int_of_float :: "float \<Rightarrow> int option" where
  "int_of_float (Finite x) =
    (if - 2147483648 \<le> c_trunc x \<and> c_trunc x \<le> 2147483647 then Some (c_trunc x) else None)"
| "int_of_float a = None"


text \<open>
  Of \<open>math.h\<close>: \<open>sqrtf\<close> is the correctly rounded square root that IEEE 754 requires,
  and \<open>ceilf\<close> is exact. \<open>logf\<close> and \<open>powf\<close> are not determined to the last bit by
  the C standard; they are parameters.
\<close>

fun sqrtf :: "float \<Rightarrow> float" where
  "sqrtf (Finite x) = (if x < 0 then NaN else round32 (sqrt x))"
| "sqrtf PInf = PInf"
| "sqrtf NInf = NaN"
| "sqrtf NaN = NaN"

fun ceilf :: "float \<Rightarrow> float" where
  "ceilf (Finite x) = Finite (of_int \<lceil>x\<rceil>)"
| "ceilf a = a"

record libm =
  logf :: "float \<Rightarrow> float"
  powf :: "float \<Rightarrow> float \<Rightarrow> float"

section \<open>Fonts\<close>

text \<open>
  The structures of \<open>rayn.h\<close> that \<open>text.c\<close> uses, with the fields it uses. \<open>int\<close>
  fields are integers; the values of interest (glyph sizes, offsets, indices, codepoints)
  are far from the limits of a 32-bit \<open>int\<close>, and no overflow of \<open>int\<close> arithmetic is
  modelled. \<open>float\<close> fields and variables are values of the type \<open>float\<close> above.
  Arrays are lists, and an access outside an array (undefined behaviour in C) is
  \<open>None\<close>. The texture of a font is not modelled. Field names carry a prefix where a
  record field of that name would hide a variable or a constant (\<open>x\<close>, \<open>width\<close>,
  \<open>image\<close>, \<open>value\<close>).
\<close>

datatype PixelFormat = UNCOMPRESSED_GRAYSCALE | UNCOMPRESSED_GRAY_ALPHA

datatype FontType = FONT_DEFAULT | FONT_BITMAP | FONT_SDF

record Image =
  img_data :: "byte list"
  img_width :: int
  img_height :: int
  img_mipmaps :: int
  img_format :: PixelFormat

record CharInfo =
  charValue :: int
  charImage :: Image
  offsetX :: int
  offsetY :: int
  advanceX :: int

record Rectangle =
  rec_x :: float
  rec_y :: float
  rec_width :: float
  rec_height :: float

record Vector2 =
  vec_x :: float
  vec_y :: float

record Font =
  baseSize :: int
  charsCount :: int
  chars :: "CharInfo list"
  recs :: "Rectangle list"

definition array_get :: "'a list \<Rightarrow> nat \<Rightarrow> 'a option" where
  "array_get xs i = (if i < length xs then Some (xs ! i) else None)"

text \<open>\<open>(charsCount > 0)? charsCount : 95\<close>, as the number of iterations of a loop.\<close>

definition chars_or_default :: "int \<Rightarrow> nat" where
  "chars_or_default charsCount0 = nat (if charsCount0 > 0 then charsCount0 else 95)"

subsection \<open>Glyph lookup\<close>

text \<open>
  \<open>GetGlyphIndex\<close>, compiled with \<open>UNORDERED_CHARSET\<close> (defined just above its body):
  \<open>index\<close> starts as \<open>TEXT_CHARACTER_NOTFOUND\<close>, which is 63, and the loop over
  \<open>i < font.charsCount\<close> stops at the first glyph whose value is the codepoint. The
  last argument of the loop function counts the iterations that remain.
\<close>

definition TEXT_CHARACTER_NOTFOUND :: nat where
  "TEXT_CHARACTER_NOTFOUND = 63"

fun GetGlyphIndex_loop :: "CharInfo list \<Rightarrow> int \<Rightarrow> nat \<Rightarrow> nat \<Rightarrow> nat option" where
  "GetGlyphIndex_loop cs codepoint i 0 = Some TEXT_CHARACTER_NOTFOUND"
| "GetGlyphIndex_loop cs codepoint i (Suc n) =
    (case array_get cs i of None \<Rightarrow> None
     | Some c \<Rightarrow> if charValue c = codepoint then Some i
                else GetGlyphIndex_loop cs codepoint (Suc i) n)"

definition GetGlyphIndex :: "Font \<Rightarrow> int \<Rightarrow> nat option" where
  "GetGlyphIndex font codepoint = GetGlyphIndex_loop (chars font) codepoint 0 (nat (charsCount font))"

section \<open>Text layout\<close>

subsection \<open>Measurement\<close>

text \<open>
  \<open>MeasureTextEx\<close>. The local variables that the loop changes form the state. One pass of
  the loop is \<open>MeasureTextEx_body\<close>: it decodes the codepoint at \<open>i\<close>, looks its glyph
  up, and changes the state as \<open>measure_step\<close> says; it also returns the loop counter
  after \<open>i += next - 1\<close> (the byte count is a natural number here, so the subtraction
  stops at 0; the decoder never reports less than 1). \<open>measure_advance\<close> is what a pass
  adds to \<open>textWidth\<close> for a glyph that is not a newline:
  \<open>(float)font.chars[index].advanceX\<close>, or
  \<open>font.recs[index].width + (float)font.chars[index].offsetX\<close> when the advance is 0.
\<close>

record measure_state =
  tempLen :: int
  lenCounter :: int
  textWidth :: float
  tempTextWidth :: float
  textHeight :: float

definition measure_advance :: "Font \<Rightarrow> nat \<Rightarrow> float option" where
  "measure_advance font index =
    (case array_get (chars font) index of None \<Rightarrow> None
     | Some c \<Rightarrow>
        if advanceX c \<noteq> 0 then Some (float_of_int (advanceX c))
        else (case array_get (recs font) index of None \<Rightarrow> None
              | Some r \<Rightarrow> Some (fadd (rec_width r) (float_of_int (offsetX c)))))"

text \<open>What measurement adds for a codepoint: the lookup, then the advance.\<close>

definition glyph_width :: "Font \<Rightarrow> int \<Rightarrow> float option" where
  "glyph_width font codepoint =
    (case GetGlyphIndex font codepoint of None \<Rightarrow> None
     | Some index \<Rightarrow> measure_advance font index)"

definition measure_step :: "Font \<Rightarrow> int \<Rightarrow> nat \<Rightarrow> measure_state \<Rightarrow> measure_state option" where
  "measure_step font letter index st =
    (let st1 = st\<lparr>lenCounter := lenCounter st + 1\<rparr> in
     case (if letter \<noteq> 0x0a
           then map_option (\<lambda>w. st1\<lparr>textWidth := fadd (textWidth st1) w\<rparr>)
                  (measure_advance font index)
           else Some (st1\<lparr>tempTextWidth :=
                             (if flt (tempTextWidth st1) (textWidth st1) then textWidth st1
                              else tempTextWidth st1),
                           lenCounter := 0,
                           textWidth := Finite 0,
                           textHeight := fadd (textHeight st1)
                                           (fmul (float_of_int (baseSize font)) (Finite 1.5))\<rparr>))
     of None \<Rightarrow> None
     | Some st2 \<Rightarrow>
        Some (st2\<lparr>tempLen := (if tempLen st2 < lenCounter st2 then lenCounter st2
                               else tempLen st2)\<rparr>))"

definition MeasureTextEx_body ::
  "Font \<Rightarrow> byte list \<Rightarrow> nat \<Rightarrow> measure_state \<Rightarrow> (nat \<times> measure_state) option" where
  "MeasureTextEx_body font text i st =
    (case GetNextCodepoint text i of None \<Rightarrow> None
     | Some (letter, next0) \<Rightarrow>
        (case GetGlyphIndex font letter of None \<Rightarrow> None
         | Some index \<Rightarrow>
            let next = (if letter = 0x3f then 1 else next0) in
            (case measure_step font letter index st of None \<Rightarrow> None
             | Some st' \<Rightarrow> Some (i + (next - 1), st'))))"

lemma MeasureTextEx_body_advances:
  "MeasureTextEx_body font text i st = Some (i', st') \<Longrightarrow> i \<le> i'"
  by (auto simp: MeasureTextEx_body_def Let_def split: option.splits if_splits)

function MeasureTextEx_loop ::
  "Font \<Rightarrow> byte list \<Rightarrow> nat \<Rightarrow> nat \<Rightarrow> measure_state \<Rightarrow> measure_state option" where
  "MeasureTextEx_loop font text len i st =
    (if i < len then
       (case MeasureTextEx_body font text i st of None \<Rightarrow> None
        | Some (i', st') \<Rightarrow> MeasureTextEx_loop font text len (Suc i') st')
     else Some st)"
  by pat_completeness auto
termination
  by (relation "measure (\<lambda>(font, text, len, i, st). len - i)")
     (auto dest: MeasureTextEx_body_advances)

text \<open>
  After the loop: the last comparison of the two widths, then the scaling.
  \<open>scaleFactor = fontSize/(float)font.baseSize\<close>: for a base size of 0 the division
  gives an infinity or a NaN, and the function goes on with it.
\<close>

definition measure_result :: "float \<Rightarrow> float \<Rightarrow> measure_state \<Rightarrow> Vector2" where
  "measure_result scaleFactor spacing st =
    (let w = (if flt (tempTextWidth st) (textWidth st) then textWidth st else tempTextWidth st)
     in \<lparr>vec_x = fadd (fmul w scaleFactor) (fmul (float_of_int (tempLen st - 1)) spacing),
         vec_y = fmul (textHeight st) scaleFactor\<rparr>)"

definition MeasureTextEx :: "Font \<Rightarrow> byte list \<Rightarrow> float \<Rightarrow> float \<Rightarrow> Vector2 option" where
  "MeasureTextEx font text fontSize spacing =
    (case strlen text of None \<Rightarrow> None
     | Some len \<Rightarrow>
        map_option (measure_result (fdiv fontSize (float_of_int (baseSize font))) spacing)
          (MeasureTextEx_loop font text len 0
             \<lparr>tempLen = 0, lenCounter = 0, textWidth = Finite 0, tempTextWidth = Finite 0,
              textHeight = float_of_int (baseSize font)\<rparr>))"

subsection \<open>Drawing\<close>









subsection \<open>The passes of the two loops\<close>




section \<open>Atlas packer\<close>

text \<open>
  \<open>GenImageFontAtlas\<close>. \<open>recs\<close> comes from \<open>RL_MALLOC\<close> and is not initialised: an
  entry of the result is \<open>None\<close> until the code writes it. \<open>atlas.data\<close> comes from
  \<open>RL_CALLOC\<close>: \<open>atlas.width*atlas.height\<close> zero bytes. Allocation is assumed to
  succeed. The messages of \<open>TraceLog\<close> have no effect on the result and are left out.
\<close>

definition footprint :: "CharInfo \<Rightarrow> int \<Rightarrow> int" where
  "footprint c padding =
    (img_width (charImage c) + 2 * padding) * (img_height (charImage c) + 2 * padding)"

text \<open>\<open>requiredArea\<close> is a \<open>float\<close>: every addition of a glyph's area rounds.\<close>

fun requiredArea_loop :: "CharInfo list \<Rightarrow> int \<Rightarrow> nat \<Rightarrow> nat \<Rightarrow> float \<Rightarrow> float option" where
  "requiredArea_loop cs padding i 0 requiredArea = Some requiredArea"
| "requiredArea_loop cs padding i (Suc n) requiredArea =
    (case array_get cs i of None \<Rightarrow> None
     | Some c \<Rightarrow>
        requiredArea_loop cs padding (Suc i) n
          (fadd requiredArea (float_of_int (footprint c padding))))"

text \<open>
  \<open>guessSize = sqrtf(requiredArea)*1.3f\<close> and
  \<open>imageSize = (int)powf(2, ceilf(logf((float)guessSize)/logf(2)))\<close>. The constant
  \<open>1.3f\<close> is the \<open>float\<close> nearest to 1.3, and the arguments 2 are converted to
  \<open>float\<close>.
\<close>

definition guessSize_of :: "float \<Rightarrow> float" where
  "guessSize_of requiredArea = fmul (sqrtf requiredArea) (round32 1.3)"

definition imageSize_of :: "libm \<Rightarrow> float \<Rightarrow> int option" where
  "imageSize_of m guessSize =
    int_of_float
      (powf m (float_of_int 2)
         (ceilf (fdiv (logf m guessSize) (logf m (float_of_int 2)))))"

text \<open>
  The copy of the bitmap of a glyph into the atlas, the two nested loops over \<open>y\<close> and
  \<open>x\<close>: the byte \<open>chars[i].image.data[y*width + x]\<close> goes to
  \<open>atlas.data[(offsetY + y)*atlas.width + (offsetX + x)]\<close>. A read outside the bitmap
  or a write outside the atlas is \<open>None\<close>. The last argument of each loop function
  counts the iterations that remain.
\<close>

definition array_get_int :: "'a list \<Rightarrow> int \<Rightarrow> 'a option" where
  "array_get_int xs k = (if 0 \<le> k \<and> k < int (length xs) then Some (xs ! nat k) else None)"

definition array_set_int :: "'a list \<Rightarrow> int \<Rightarrow> 'a \<Rightarrow> 'a list option" where
  "array_set_int xs k v = (if 0 \<le> k \<and> k < int (length xs) then Some (xs[nat k := v]) else None)"

fun copy_row ::
  "byte list \<Rightarrow> int \<Rightarrow> Image \<Rightarrow> int \<Rightarrow> int \<Rightarrow> int \<Rightarrow> int \<Rightarrow> nat \<Rightarrow> byte list option" where
  "copy_row dst atlas_w im offX offY y x 0 = Some dst"
| "copy_row dst atlas_w im offX offY y x (Suc n) =
    (case array_get_int (img_data im) (y * img_width im + x) of None \<Rightarrow> None
     | Some p \<Rightarrow>
        (case array_set_int dst ((offY + y) * atlas_w + (offX + x)) p of None \<Rightarrow> None
         | Some dst' \<Rightarrow> copy_row dst' atlas_w im offX offY y (x + 1) n))"

fun copy_glyph ::
  "byte list \<Rightarrow> int \<Rightarrow> Image \<Rightarrow> int \<Rightarrow> int \<Rightarrow> int \<Rightarrow> nat \<Rightarrow> byte list option" where
  "copy_glyph dst atlas_w im offX offY y 0 = Some dst"
| "copy_glyph dst atlas_w im offX offY y (Suc n) =
    (case copy_row dst atlas_w im offX offY y 0 (nat (img_width im)) of None \<Rightarrow> None
     | Some dst' \<Rightarrow> copy_glyph dst' atlas_w im offX offY (y + 1) n)"

text \<open>
  The basic packing algorithm (\<open>packMethod == 0\<close>): one glyph after another, a new row
  when the next position would come too close to the right edge, and \<open>break\<close> when the
  new row would not fit; the rectangles of the glyphs after the \<open>break\<close> are never
  written. The state is the array of rectangles and the pixels of the atlas.
\<close>

fun row_pack ::
  "CharInfo list \<Rightarrow> int \<Rightarrow> int \<Rightarrow> int \<Rightarrow> int \<Rightarrow> nat \<Rightarrow> nat \<Rightarrow> int \<Rightarrow> int
    \<Rightarrow> Rectangle option list \<times> byte list \<Rightarrow> (Rectangle option list \<times> byte list) option" where
  "row_pack cs atlas_w atlas_h fontSize padding i 0 offX offY (rs, px) = Some (rs, px)"
| "row_pack cs atlas_w atlas_h fontSize padding i (Suc n) offX offY (rs, px) =
    (case array_get cs i of None \<Rightarrow> None
     | Some c \<Rightarrow>
        let w = img_width (charImage c);
            h = img_height (charImage c)
        in
        (case copy_glyph px atlas_w (charImage c) offX offY 0 (nat h) of None \<Rightarrow> None
         | Some px' \<Rightarrow>
            let rs' = rs[i := Some \<lparr>rec_x = float_of_int offX, rec_y = float_of_int offY,
                                     rec_width = float_of_int w, rec_height = float_of_int h\<rparr>];
                offX' = offX + (w + 2 * padding)
            in
            if offX' \<ge> atlas_w - w - padding then
              (let offY' = offY + (fontSize + 2 * padding) in
               if offY' > atlas_h - fontSize - padding then Some (rs', px')
               else row_pack cs atlas_w atlas_h fontSize padding (Suc i) n padding offY' (rs', px'))
            else row_pack cs atlas_w atlas_h fontSize padding (Suc i) n offX' offY (rs', px')))"

text \<open>
  The Skyline algorithm (\<open>packMethod == 1\<close>). \<open>stb_rect_pack.h\<close> is not among the
  sources: \<open>stbrp_pack_rects\<close> is a parameter, a function from the size of the target
  and the array of rectangles to the array with \<open>x\<close>, \<open>y\<close> and \<open>was_packed\<close> filled in.
  The bitmap of a glyph is copied when its rectangle was packed.
\<close>

record stbrp_rect =
  rect_id :: int
  rect_w :: int
  rect_h :: int
  rect_x :: int
  rect_y :: int
  was_packed :: bool

fun skyline_rects :: "CharInfo list \<Rightarrow> int \<Rightarrow> nat \<Rightarrow> nat \<Rightarrow> stbrp_rect list option" where
  "skyline_rects cs padding i 0 = Some []"
| "skyline_rects cs padding i (Suc n) =
    (case array_get cs i of None \<Rightarrow> None
     | Some c \<Rightarrow>
        map_option
          (\<lambda>rects. \<lparr>rect_id = int i, rect_w = img_width (charImage c) + 2 * padding,
                     rect_h = img_height (charImage c) + 2 * padding,
                     rect_x = 0, rect_y = 0, was_packed = False\<rparr> # rects)
          (skyline_rects cs padding (Suc i) n))"

fun skyline_recs ::
  "CharInfo list \<Rightarrow> stbrp_rect list \<Rightarrow> int \<Rightarrow> int \<Rightarrow> nat \<Rightarrow> nat
    \<Rightarrow> Rectangle option list \<times> byte list \<Rightarrow> (Rectangle option list \<times> byte list) option" where
  "skyline_recs cs rects atlas_w padding i 0 (rs, px) = Some (rs, px)"
| "skyline_recs cs rects atlas_w padding i (Suc n) (rs, px) =
    (case array_get rects i of None \<Rightarrow> None
     | Some r \<Rightarrow>
        (case array_get cs i of None \<Rightarrow> None
         | Some c \<Rightarrow>
            let rs' = rs[i := Some \<lparr>rec_x = fadd (float_of_int (rect_x r)) (float_of_int padding),
                                     rec_y = fadd (float_of_int (rect_y r)) (float_of_int padding),
                                     rec_width = float_of_int (img_width (charImage c)),
                                     rec_height = float_of_int (img_height (charImage c))\<rparr>]
            in
            (case (if was_packed r
                   then copy_glyph px atlas_w (charImage c) (rect_x r + padding) (rect_y r + padding)
                          0 (nat (img_height (charImage c)))
                   else Some px)
             of None \<Rightarrow> None
             | Some px' \<Rightarrow> skyline_recs cs rects atlas_w padding (Suc i) n (rs', px'))))"

text \<open>
  The whole function. After the packing, every byte \<open>p\<close> of the atlas becomes the two
  bytes \<open>255, p\<close> (\<open>UNCOMPRESSED_GRAY_ALPHA\<close>). The result is the atlas and the array
  \<open>*charRecs\<close>.
\<close>

record atlas_result =
  atlas :: Image
  charRecs :: "Rectangle option list"

definition GenImageFontAtlas ::
  "libm \<Rightarrow> (int \<Rightarrow> int \<Rightarrow> stbrp_rect list \<Rightarrow> stbrp_rect list) \<Rightarrow> CharInfo list \<Rightarrow> int \<Rightarrow> int
    \<Rightarrow> int \<Rightarrow> int \<Rightarrow> atlas_result option" where
  "GenImageFontAtlas m stbrp_pack_rects cs charsCount0 fontSize padding packMethod =
    (let n = chars_or_default charsCount0;
         rs = replicate n None
     in
     case requiredArea_loop cs padding 0 n (Finite 0) of None \<Rightarrow> None
     | Some requiredArea \<Rightarrow>
        (case imageSize_of m (guessSize_of requiredArea) of None \<Rightarrow> None
         | Some imageSize \<Rightarrow>
            let px = replicate (nat (imageSize * imageSize)) 0 in
            (case (if packMethod = 0
                   then row_pack cs imageSize imageSize fontSize padding 0 n padding padding (rs, px)
                   else if packMethod = 1
                   then (case skyline_rects cs padding 0 n of None \<Rightarrow> None
                         | Some rects \<Rightarrow>
                            skyline_recs cs (stbrp_pack_rects imageSize imageSize rects)
                              imageSize padding 0 n (rs, px))
                   else Some (rs, px))
             of None \<Rightarrow> None
             | Some (rs', px') \<Rightarrow>
                Some \<lparr>atlas = \<lparr>img_data = concat (map (\<lambda>p. [255, p]) px'),
                                img_width = imageSize, img_height = imageSize,
                                img_mipmaps = 1, img_format = UNCOMPRESSED_GRAY_ALPHA\<rparr>,
                      charRecs = rs'\<rparr>)))"

text \<open>
  Two properties of an entry of \<open>*charRecs\<close>. \<open>recorded c r\<close>: the entry has been
  written, with the width and the height of the bitmap of the glyph \<open>c\<close> converted to
  \<open>float\<close>. \<open>row_end\<close>: the entry has been written by the basic algorithm at a
  position \<open>(x, y)\<close> after which the next position leaves the row and the next row does
  not fit, the two tests of the source before its \<open>break\<close>.
\<close>

definition recorded :: "CharInfo \<Rightarrow> Rectangle option \<Rightarrow> bool" where
  "recorded c r =
    (\<exists>q. r = Some q \<and> rec_width q = float_of_int (img_width (charImage c)) \<and>
          rec_height q = float_of_int (img_height (charImage c)))"

definition row_end :: "int \<Rightarrow> int \<Rightarrow> int \<Rightarrow> int \<Rightarrow> CharInfo \<Rightarrow> Rectangle option \<Rightarrow> bool" where
  "row_end atlas_w atlas_h fontSize padding c r =
    (\<exists>x y. r = Some \<lparr>rec_x = float_of_int x, rec_y = float_of_int y,
                      rec_width = float_of_int (img_width (charImage c)),
                      rec_height = float_of_int (img_height (charImage c))\<rparr> \<and>
           x + (img_width (charImage c) + 2 * padding)
             \<ge> atlas_w - img_width (charImage c) - padding \<and>
           y + (fontSize + 2 * padding) > atlas_h - fontSize - padding)"

section \<open>Glyph metrics extractor\<close>

text \<open>
  \<open>LoadFontData\<close>. \<open>stb_truetype.h\<close> and the file system are not among the sources. The
  contents of the file are a parameter (\<open>None\<close> when \<open>fopen\<close> fails), and so is the
  rasterizer: a record of the functions that the code calls, each taking the font buffer
  in place of the \<open>stbtt_fontinfo\<close> that \<open>stbtt_InitFont\<close> fills from it. After a
  failed \<open>stbtt_InitFont\<close> the \<open>stbtt_fontinfo\<close> is not initialised and what the other
  functions return is not determined; whatever it is, it is some value of these functions.
  \<open>malloc_junk\<close> is what the memory of \<open>chars[i]\<close> holds for \<open>offsetX\<close> and \<open>offsetY\<close>
  before the code writes them (the code leaves them unwritten for the space of an SDF
  font). The constants \<open>SDF_CHAR_PADDING\<close>, \<open>SDF_ON_EDGE_VALUE\<close> and
  \<open>SDF_PIXEL_DIST_SCALE\<close> that the code passes to \<open>stbtt_GetCodepointSDF\<close> are part of
  that parameter. Of \<open>TraceLog\<close> the model keeps the messages of level \<open>LOG_WARNING\<close>, as format
  strings. The scale factor is a real number in this function, and the two products
  \<open>(float)ascent*scaleFactor\<close> and \<open>advanceX*scaleFactor\<close> are exact where C
  rounds them to \<open>float\<close>; the statement proved of this function below is about the
  number of glyph records and the log, and holds whatever these two numbers are.
\<close>

record glyph_bitmap =
  bm_data :: "byte list"
  bm_width :: int
  bm_height :: int
  bm_xoff :: int
  bm_yoff :: int

record rasterizer =
  stbtt_InitFont :: "byte list \<Rightarrow> bool"
  stbtt_ScaleForPixelHeight :: "byte list \<Rightarrow> real \<Rightarrow> real"
  stbtt_GetFontVMetrics_ascent :: "byte list \<Rightarrow> int"
  stbtt_GetCodepointBitmap :: "byte list \<Rightarrow> real \<Rightarrow> int \<Rightarrow> glyph_bitmap"
  stbtt_GetCodepointSDF :: "byte list \<Rightarrow> real \<Rightarrow> int \<Rightarrow> glyph_bitmap"
  stbtt_GetCodepointHMetrics :: "byte list \<Rightarrow> int \<Rightarrow> int"
  malloc_junk :: "nat \<Rightarrow> int \<times> int"

datatype log_entry = LOG_WARNING string

record load_result =
  loaded :: "CharInfo list option"
  trace :: "log_entry list"

definition BITMAP_ALPHA_THRESHOLD :: byte where
  "BITMAP_ALPHA_THRESHOLD = 80"

definition LoadFontData_glyph ::
  "rasterizer \<Rightarrow> byte list \<Rightarrow> real \<Rightarrow> int \<Rightarrow> FontType \<Rightarrow> nat \<Rightarrow> int \<Rightarrow> CharInfo option" where
  "LoadFontData_glyph stb fontBuffer scaleFactor ascent type i ch =
    (let bm = (if type \<noteq> FONT_SDF then stbtt_GetCodepointBitmap stb fontBuffer scaleFactor ch
               else if ch \<noteq> 32 then stbtt_GetCodepointSDF stb fontBuffer scaleFactor ch
               else \<lparr>bm_data = [], bm_width = 0, bm_height = 0,
                     bm_xoff = fst (malloc_junk stb i), bm_yoff = snd (malloc_junk stb i)\<rparr>);
         pixels = nat (bm_width bm * bm_height bm)
     in
     case (if type = FONT_BITMAP
           then (if pixels \<le> length (bm_data bm)
                 then Some (map (\<lambda>p. if p < BITMAP_ALPHA_THRESHOLD then 0 else 255)
                              (take pixels (bm_data bm)) @ drop pixels (bm_data bm))
                 else None)
           else Some (bm_data bm))
     of None \<Rightarrow> None
     | Some d \<Rightarrow>
        Some \<lparr>charValue = ch,
              charImage = \<lparr>img_data = d, img_width = bm_width bm, img_height = bm_height bm,
                           img_mipmaps = 1, img_format = UNCOMPRESSED_GRAYSCALE\<rparr>,
              offsetX = bm_xoff bm,
              offsetY = bm_yoff bm + c_trunc (real_of_int ascent * scaleFactor),
              advanceX = c_trunc (real_of_int (stbtt_GetCodepointHMetrics stb fontBuffer ch)
                                  * scaleFactor)\<rparr>)"

fun LoadFontData_loop ::
  "rasterizer \<Rightarrow> byte list \<Rightarrow> real \<Rightarrow> int \<Rightarrow> int list \<Rightarrow> FontType \<Rightarrow> nat \<Rightarrow> nat
    \<Rightarrow> CharInfo list \<Rightarrow> CharInfo list option" where
  "LoadFontData_loop stb fontBuffer scaleFactor ascent fontChars type i 0 cs = Some cs"
| "LoadFontData_loop stb fontBuffer scaleFactor ascent fontChars type i (Suc n) cs =
    (case array_get fontChars i of None \<Rightarrow> None
     | Some ch \<Rightarrow>
        (case LoadFontData_glyph stb fontBuffer scaleFactor ascent type i ch of None \<Rightarrow> None
         | Some c \<Rightarrow>
            LoadFontData_loop stb fontBuffer scaleFactor ascent fontChars type (Suc i) n (cs @ [c])))"

definition LoadFontData ::
  "rasterizer \<Rightarrow> byte list option \<Rightarrow> int \<Rightarrow> int list option \<Rightarrow> int \<Rightarrow> FontType
    \<Rightarrow> load_result option" where
  "LoadFontData stb fontFile fontSize fontChars0 charsCount0 type =
    (case fontFile of
       None \<Rightarrow> Some \<lparr>loaded = None, trace = [LOG_WARNING ''[%s] TTF file could not be opened'']\<rparr>
     | Some fontBuffer \<Rightarrow>
        let warnings = (if \<not> stbtt_InitFont stb fontBuffer
                        then [LOG_WARNING ''Failed to init font!''] else []);
            scaleFactor = stbtt_ScaleForPixelHeight stb fontBuffer (real_of_int fontSize);
            ascent = stbtt_GetFontVMetrics_ascent stb fontBuffer;
            n = chars_or_default charsCount0;
            fontChars = (case fontChars0 of None \<Rightarrow> map (\<lambda>i. int i + 32) [0..<n]
                         | Some given \<Rightarrow> given)
        in
        (case LoadFontData_loop stb fontBuffer scaleFactor ascent fontChars type 0 n [] of
           None \<Rightarrow> None
         | Some cs \<Rightarrow> Some \<lparr>loaded = Some cs, trace = warnings\<rparr>))"

section \<open>Example inputs\<close>

text \<open>
  \<open>ascii_font\<close> has the layout that \<open>LoadFontEx\<close> builds when no codepoint list is
  given: 95 glyphs for the codepoints 32 to 126 in order, here each 8 by 8 pixels with
  horizontal offset 1 and advance 10, at base size 32. \<open>zero_advance_font\<close> has the single
  glyph \<open>A\<close>, 10 pixels wide, with horizontal offset 2 and advance 0, at base size 10;
  \<open>decimal_font\<close> is the same font with advance 10. The bitmap of a \<open>blank_glyph\<close> has
  \<open>w \<times> h\<close> zero bytes.
\<close>

definition blank_glyph :: "int \<Rightarrow> int \<Rightarrow> int \<Rightarrow> int \<Rightarrow> int \<Rightarrow> CharInfo" where
  "blank_glyph v w h ox adv =
    \<lparr>charValue = v,
     charImage = \<lparr>img_data = replicate (nat (w * h)) 0, img_width = w, img_height = h,
                  img_mipmaps = 1, img_format = UNCOMPRESSED_GRAYSCALE\<rparr>,
     offsetX = ox, offsetY = 0, advanceX = adv\<rparr>"

definition ascii_font :: Font where
  "ascii_font =
    \<lparr>baseSize = 32, charsCount = 95,
     chars = map (\<lambda>v. blank_glyph v 8 8 1 10) [32..126],
     recs = replicate 95 \<lparr>rec_x = Finite 0, rec_y = Finite 0, rec_width = Finite 8,
                           rec_height = Finite 8\<rparr>\<rparr>"

definition zero_advance_font :: Font where
  "zero_advance_font =
    \<lparr>baseSize = 10, charsCount = 1,
     chars = [blank_glyph 0x41 10 10 2 0],
     recs = [\<lparr>rec_x = Finite 0, rec_y = Finite 0, rec_width = Finite 10, rec_height = Finite 10\<rparr>]\<rparr>"


text \<open>The strings \<open>"Hi\nWorld"\<close>, \<open>"World\nHi"\<close>, \<open>"A"\<close> and \<open>"AAA"\<close>, with their
  terminators, and the origin.\<close>

definition Hi_World :: "byte list" where
  "Hi_World = [0x48, 0x69, 0x0a, 0x57, 0x6f, 0x72, 0x6c, 0x64, 0]"






definition two_glyphs_8x8 :: "CharInfo list" where
  "two_glyphs_8x8 = [blank_glyph 0x41 8 8 0 8, blank_glyph 0x42 8 8 0 8]"

text \<open>
  A rectangle packer that leaves the array as it is, a rectangle packer that puts the
  rectangles side by side in one row from the left, and a rasterizer that rejects
  every buffer and has no glyph data. \<open>example_libm\<close> has the values of \<open>logf\<close> and
  \<open>powf\<close> at the arguments that the two glyph lists lead to, each the \<open>float\<close>
  nearest to the exact value: \<open>logf(2) = 0.6931472\<close>, \<open>logf(8.221922) = 2.1068039\<close>,
  \<open>logf(14.70782) = 2.6883793\<close> and \<open>powf(2, 4) = 16\<close>; and at the guessed size 2048:
  \<open>logf(2048) = 7.624619\<close> and \<open>powf(2, 11) = 2048\<close>.
\<close>

definition idle_packer :: "int \<Rightarrow> int \<Rightarrow> stbrp_rect list \<Rightarrow> stbrp_rect list" where
  "idle_packer w h rects = rects"

fun place_in_row :: "int \<Rightarrow> stbrp_rect list \<Rightarrow> stbrp_rect list" where
  "place_in_row x [] = []"
| "place_in_row x (r # rects) =
    r\<lparr>rect_x := x, rect_y := 0, was_packed := True\<rparr> # place_in_row (x + rect_w r) rects"

definition shelf_packer :: "int \<Rightarrow> int \<Rightarrow> stbrp_rect list \<Rightarrow> stbrp_rect list" where
  "shelf_packer w h rects = place_in_row 0 rects"

definition example_libm :: libm where
  "example_libm =
    \<lparr>logf = (\<lambda>x. if x = Finite 2 then Finite (1453635 / 2097152)
                  else if x = Finite (4310655 / 524288) then Finite (276143 / 131072)
                  else if x = Finite (15422267 / 1048576) then Finite (1409485 / 524288)
                  else if x = Finite 2048 then Finite (15989985 / 2097152)
                  else NaN),
     powf = (\<lambda>x y. if x = Finite 2 \<and> y = Finite 4 then Finite 16
                    else if x = Finite 2 \<and> y = Finite 11 then Finite 2048
                    else NaN)\<rparr>"

definition rejecting_rasterizer :: rasterizer where
  "rejecting_rasterizer =
    \<lparr>stbtt_InitFont = (\<lambda>b. False),
     stbtt_ScaleForPixelHeight = (\<lambda>b s. 0),
     stbtt_GetFontVMetrics_ascent = (\<lambda>b. 0),
     stbtt_GetCodepointBitmap =
       (\<lambda>b s c. \<lparr>bm_data = [], bm_width = 0, bm_height = 0, bm_xoff = 0, bm_yoff = 0\<rparr>),
     stbtt_GetCodepointSDF =
       (\<lambda>b s c. \<lparr>bm_data = [], bm_width = 0, bm_height = 0, bm_xoff = 0, bm_yoff = 0\<rparr>),
     stbtt_GetCodepointHMetrics = (\<lambda>b c. 0),
     malloc_junk = (\<lambda>i. (0, 0))\<rparr>"

section \<open>Proofs: the codepoint decoder\<close>

subsection \<open>Bytes, masks and shifts as arithmetic\<close>

text \<open>
  The decoder tests and combines octets with masks and shifts. On a byte each test is a
  range test and each mask a remainder; the 256 cases are checked by evaluation.
\<close>

lemma byte_facts:
  "\<forall>x\<in>{0..<256::int}.
     (x AND 0xe0 = 0xc0) = (0xc0 \<le> x \<and> x \<le> 0xdf) \<and>
     (x AND 0xf0 = 0xe0) = (0xe0 \<le> x \<and> x \<le> 0xef) \<and>
     (x AND 0xf8 = 0xf0) = (0xf0 \<le> x \<and> x \<le> 0xf7) \<and>
     (drop_bit 6 x = 2) = (0x80 \<le> x \<and> x \<le> 0xbf) \<and>
     x AND 0x3f = x mod 64 \<and> x AND 0x1f = x mod 32 \<and>
     x AND 0xf = x mod 16 \<and> x AND 0x7 = x mod 8"
  by code_simp

lemma byte_lead2:
  fixes x :: int
  shows "0 \<le> x \<Longrightarrow> x < 256 \<Longrightarrow> (x AND 0xe0 = 0xc0) = (0xc0 \<le> x \<and> x \<le> 0xdf)"
  using byte_facts[rule_format, of x] by simp

lemma byte_lead3:
  fixes x :: int
  shows "0 \<le> x \<Longrightarrow> x < 256 \<Longrightarrow> (x AND 0xf0 = 0xe0) = (0xe0 \<le> x \<and> x \<le> 0xef)"
  using byte_facts[rule_format, of x] by simp

lemma byte_lead4:
  fixes x :: int
  shows "0 \<le> x \<Longrightarrow> x < 256 \<Longrightarrow> (x AND 0xf8 = 0xf0) = (0xf0 \<le> x \<and> x \<le> 0xf7)"
  using byte_facts[rule_format, of x] by simp

lemma byte_tail:
  fixes x :: int
  shows "0 \<le> x \<Longrightarrow> x < 256 \<Longrightarrow> (drop_bit 6 x = 2) = (0x80 \<le> x \<and> x \<le> 0xbf)"
  using byte_facts[rule_format, of x] by simp

lemma byte_and3f:
  fixes x :: int
  shows "0 \<le> x \<Longrightarrow> x < 256 \<Longrightarrow> x AND 0x3f = x mod 64"
  using byte_facts[rule_format, of x] by simp

lemma byte_and1f:
  fixes x :: int
  shows "0 \<le> x \<Longrightarrow> x < 256 \<Longrightarrow> x AND 0x1f = x mod 32"
  using byte_facts[rule_format, of x] by simp

lemma byte_andf:
  fixes x :: int
  shows "0 \<le> x \<Longrightarrow> x < 256 \<Longrightarrow> x AND 0xf = x mod 16"
  using byte_facts[rule_format, of x] by simp

lemma byte_and7:
  fixes x :: int
  shows "0 \<le> x \<Longrightarrow> x < 256 \<Longrightarrow> x AND 0x7 = x mod 8"
  using byte_facts[rule_format, of x] by simp

lemmas byte_simps = byte_lead2 byte_lead3 byte_lead4 byte_tail byte_and3f byte_and1f byte_andf byte_and7

lemma peek_byte: "peek buf k = Some x \<Longrightarrow> 0 \<le> x \<and> x < 256"
  by (auto simp: peek_def split: if_splits intro: uint_lt2p[where 'a=8, simplified])

lemma push_or_add:
  fixes a b :: int
  assumes "0 \<le> b" "b < 2 ^ n"
  shows "push_bit n a OR b = a * 2 ^ n + b"
proof -
  have b: "take_bit n b = b" using assms by (simp add: take_bit_int_eq_self)
  have "push_bit n a AND take_bit n b = 0"
    by (rule bit_eqI) (auto simp: bit_simps)
  then have "push_bit n a + b = push_bit n a OR b"
    using b by (simp add: disjunctive_add_eq_or)
  then show ?thesis by (simp add: push_bit_eq_mult)
qed

lemma code2:
  fixes a b :: int
  shows "push_bit 6 a OR (b mod 64) = a * 64 + b mod 64"
  using push_or_add[of "b mod 64" 6 a] by simp

lemma code3:
  fixes a b c :: int
  shows "push_bit 12 a OR push_bit 6 (b mod 64) OR (c mod 64) = a * 4096 + (b mod 64) * 64 + c mod 64"
proof -
  have "push_bit 6 (b mod 64) OR (c mod 64) = (b mod 64) * 64 + c mod 64" by (rule code2)
  moreover have "0 \<le> (b mod 64) * 64 + c mod 64" "(b mod 64) * 64 + c mod 64 < 2 ^ 12"
    using pos_mod_bound[of 64 b] pos_mod_sign[of 64 b] pos_mod_bound[of 64 c] pos_mod_sign[of 64 c] by auto
  ultimately show ?thesis
    using push_or_add[of "(b mod 64) * 64 + c mod 64" 12 a] by (simp add: or.assoc)
qed

lemma code4:
  fixes a b c d :: int
  shows "push_bit 18 a OR push_bit 12 (b mod 64) OR push_bit 6 (c mod 64) OR (d mod 64)
         = a * 262144 + (b mod 64) * 4096 + (c mod 64) * 64 + d mod 64"
proof -
  have "push_bit 12 (b mod 64) OR push_bit 6 (c mod 64) OR (d mod 64)
        = (b mod 64) * 4096 + (c mod 64) * 64 + d mod 64" by (rule code3)
  moreover have "0 \<le> (b mod 64) * 4096 + (c mod 64) * 64 + d mod 64"
     "(b mod 64) * 4096 + (c mod 64) * 64 + d mod 64 < 2 ^ 18"
    using pos_mod_bound[of 64 b] pos_mod_sign[of 64 b] pos_mod_bound[of 64 c] pos_mod_sign[of 64 c]
       pos_mod_bound[of 64 d] pos_mod_sign[of 64 d] by auto
  ultimately show ?thesis
    using push_or_add[of "(b mod 64) * 4096 + (c mod 64) * 64 + d mod 64" 18 a] by (simp add: or.assoc)
qed

subsection \<open>What the decoder returns, by the class of the lead octet\<close>

text \<open>
  One lemma for each path through the decoder, with the bytes it reads as hypotheses and
  the codepoint in positional arithmetic.
\<close>

lemma dec1:
  assumes "peek text i = Some b0" "b0 \<le> 0x7f"
  shows "GetNextCodepoint text i = Some (b0, 1)"
  using assms by (simp add: GetNextCodepoint_def finish_def)

lemma dec_stray:
  assumes "peek text i = Some b0" "(0x80 \<le> b0 \<and> b0 \<le> 0xbf) \<or> 0xf5 \<le> b0"
  shows "GetNextCodepoint text i = Some (0x3f, 1)"
proof -
  note r = peek_byte[OF assms(1)]
  show ?thesis
    using r assms(2) by (auto simp add: GetNextCodepoint_def finish_def assms(1) byte_simps)
qed

lemma dec2:
  assumes "peek text i = Some b0" "0xc0 \<le> b0" "b0 \<le> 0xdf" "peek text (Suc i) = Some b1"
  shows "GetNextCodepoint text i =
     (if \<not> tail b1 then Some (0x3f, 2)
      else if 0xc2 \<le> b0 then Some ((b0 mod 32) * 64 + b1 mod 64, 2)
      else Some (0x3f, 1))"
proof -
  note r = peek_byte[OF assms(1)] peek_byte[OF assms(4)]
  have "\<not> (b0 mod 32) * 64 + b1 mod 64 > 0x10ffff"
    using pos_mod_bound[of 32 b0] pos_mod_bound[of 64 b1] by simp
  then show ?thesis
    using r assms(2,3) by (simp add: GetNextCodepoint_def finish_def assms(1,4) byte_simps code2 tail_def)
qed

lemma dec3a:
  assumes "peek text i = Some b0" "0xe0 \<le> b0" "b0 \<le> 0xef" "peek text (Suc i) = Some b1"
    "\<not> tail b1"
  shows "GetNextCodepoint text i = Some (0x3f, 2)"
proof -
  note r = peek_byte[OF assms(1)] peek_byte[OF assms(4)]
  show ?thesis
    using r assms(2,3,5)
    by (simp add: GetNextCodepoint_def finish_def assms(1,4) byte_simps tail_def)
qed

lemma dec3b:
  assumes "peek text i = Some b0" "0xe0 \<le> b0" "b0 \<le> 0xef" "peek text (Suc i) = Some b1"
    "tail b1" "peek text (i + 2) = Some b2"
  shows "GetNextCodepoint text i =
     (if \<not> tail b2 then Some (0x3f, 3)
      else if (b0 = 0xe0 \<and> b1 < 0xa0) \<or> (b0 = 0xed \<and> 0x9f < b1) then Some (0x3f, 2)
      else Some ((b0 mod 16) * 4096 + (b1 mod 64) * 64 + b2 mod 64, 3))"
proof -
  note r = peek_byte[OF assms(1)] peek_byte[OF assms(4)] peek_byte[OF assms(6)]
  have "\<not> (b0 mod 16) * 4096 + (b1 mod 64) * 64 + b2 mod 64 > 0x10ffff"
    using pos_mod_bound[of 16 b0] pos_mod_bound[of 64 b1] pos_mod_bound[of 64 b2] by simp
  then show ?thesis
    using r assms(2,3,5)
    by (auto simp add: GetNextCodepoint_def finish_def assms(1,4,6) assms(6)[simplified] byte_simps tail_def code3)
qed

lemma dec4a:
  assumes "peek text i = Some b0" "0xf0 \<le> b0" "b0 \<le> 0xf4" "peek text (Suc i) = Some b1"
    "\<not> tail b1"
  shows "GetNextCodepoint text i = Some (0x3f, 2)"
proof -
  note r = peek_byte[OF assms(1)] peek_byte[OF assms(4)]
  show ?thesis
    using r assms(2,3,5)
    by (simp add: GetNextCodepoint_def finish_def assms(1,4) byte_simps tail_def)
qed

lemma dec4b:
  assumes "peek text i = Some b0" "0xf0 \<le> b0" "b0 \<le> 0xf4" "peek text (Suc i) = Some b1"
    "tail b1" "peek text (i + 2) = Some b2" "\<not> tail b2"
  shows "GetNextCodepoint text i = Some (0x3f, 3)"
proof -
  note r = peek_byte[OF assms(1)] peek_byte[OF assms(4)] peek_byte[OF assms(6)]
  show ?thesis
    using r assms(2,3,5,7)
    by (simp add: GetNextCodepoint_def finish_def assms(1,4,6) assms(6)[simplified] byte_simps tail_def)
qed

lemma dec4c:
  assumes "peek text i = Some b0" "0xf0 \<le> b0" "b0 \<le> 0xf4" "peek text (Suc i) = Some b1"
    "tail b1" "peek text (i + 2) = Some b2" "tail b2" "peek text (i + 3) = Some b3"
  shows "GetNextCodepoint text i =
     (if \<not> tail b3 then Some (0x3f, 4)
      else if (b0 = 0xf0 \<and> b1 < 0x90) \<or> (b0 = 0xf4 \<and> 0x8f < b1) then Some (0x3f, 2)
      else Some ((b0 mod 8) * 262144 + (b1 mod 64) * 4096 + (b2 mod 64) * 64 + b3 mod 64, 4))"
proof -
  note r = peek_byte[OF assms(1)] peek_byte[OF assms(4)] peek_byte[OF assms(6)]
    peek_byte[OF assms(8)]
  have m0: "b0 mod 8 \<le> 4" "b0 \<noteq> 0xf4 \<Longrightarrow> b0 mod 8 \<le> 3"
    using assms(2,3) by presburger+
  have m1: "b1 mod 64 \<le> 63" "b1 \<le> 0x8f \<Longrightarrow> b1 mod 64 \<le> 15"
    using assms(5) unfolding tail_def by presburger+
  have "\<not> (b0 = 0xf4 \<and> 0x8f < b1) \<Longrightarrow>
        \<not> (b0 mod 8) * 262144 + (b1 mod 64) * 4096 + (b2 mod 64) * 64 + b3 mod 64 > 0x10ffff"
    using pos_mod_bound[of 64 b2] pos_mod_bound[of 64 b3] m0 m1
    by (cases "b0 = 0xf4") auto
  then show ?thesis
    using r assms(2,3,5,7)
    by (auto simp add: GetNextCodepoint_def finish_def assms(1,4,6,8) assms(6,8)[simplified]
         byte_simps tail_def code4)
qed

subsection \<open>Truncated and invalid sequences\<close>

lemma nominal_length_byte:
  "0 \<le> x \<Longrightarrow> x < 256 \<Longrightarrow> nominal_length x =
     (if 0xc0 \<le> x \<and> x \<le> 0xdf then 2 else if 0xe0 \<le> x \<and> x \<le> 0xef then 3
      else if 0xf0 \<le> x \<and> x \<le> 0xf7 then 4 else 1)"
  by (simp add: nominal_length_def byte_simps)

lemma uint_byte: "0 \<le> uint (b::byte) \<and> uint b < 256"
  using uint_lt2p[of b] by simp

lemma not_tail_0: "\<not> tail 0"
  by (simp add: tail_def)

lemma truncated_result:
  assumes "truncated_at text i z"
  shows "GetNextCodepoint text i = Some (0x3f, z - i + 1)"
proof -
  define b0 where "b0 = uint (text ! i)"
  from assms have h: "i < z" "z < length text" "text ! z = 0" "0xc0 \<le> b0" "b0 \<le> 0xf4"
    "z - i < nominal_length b0" and t: "\<And>j. i < j \<Longrightarrow> j < z \<Longrightarrow> tail (uint (text ! j))"
    by (auto simp: truncated_at_def b0_def)
  have p0: "peek text i = Some b0" using h by (simp add: peek_def b0_def)
  have pz: "peek text z = Some 0" using h by (simp add: peek_def)
  have nl: "nominal_length b0 =
     (if b0 \<le> 0xdf then 2 else if b0 \<le> 0xef then 3 else 4)"
    using nominal_length_byte[of b0] uint_byte[of "text ! i"] h(4,5) by (simp add: b0_def)
  have "nominal_length b0 \<le> 4" using nl by simp
  then consider "z = Suc i" | "z = i + 2" | "z = i + 3"
    using h(1,6) by arith
  then show ?thesis
  proof cases
    case 1
    then have p1: "peek text (Suc i) = Some 0" using pz by simp
    consider "b0 \<le> 0xdf" | "0xe0 \<le> b0" "b0 \<le> 0xef" | "0xf0 \<le> b0" by linarith
    then show ?thesis
    proof cases
      case 1 then show ?thesis using dec2[OF p0 h(4) _ p1] \<open>z = Suc i\<close> by (simp add: not_tail_0)
    next
      case 2 then show ?thesis using dec3a[OF p0 _ _ p1] \<open>z = Suc i\<close> by (simp add: not_tail_0)
    next
      case 3 then show ?thesis using dec4a[OF p0 _ h(5) p1] \<open>z = Suc i\<close> by (simp add: not_tail_0)
    qed
  next
    case 2
    then have p2: "peek text (i + 2) = Some 0" using pz by simp
    have p1: "peek text (Suc i) = Some (uint (text ! Suc i))" using 2 h by (simp add: peek_def)
    have t1: "tail (uint (text ! Suc i))" using t[of "Suc i"] 2 by simp
    have "0xe0 \<le> b0" using h(6) nl 2 by (auto split: if_splits)
    then consider "0xe0 \<le> b0" "b0 \<le> 0xef" | "0xf0 \<le> b0" by linarith
    then show ?thesis
    proof cases
      case 1 then show ?thesis using dec3b[OF p0 _ _ p1 t1 p2] \<open>z = i + 2\<close> by (simp add: not_tail_0)
    next
      case 2 then show ?thesis using dec4b[OF p0 _ h(5) p1 t1 p2] \<open>z = i + 2\<close> by (simp add: not_tail_0)
    qed
  next
    case 3
    then have p3: "peek text (i + 3) = Some 0" using pz by simp
    have p1: "peek text (Suc i) = Some (uint (text ! Suc i))" using 3 h by (simp add: peek_def)
    have p2: "peek text (i + 2) = Some (uint (text ! (i + 2)))" using 3 h by (simp add: peek_def)
    have t1: "tail (uint (text ! Suc i))" using t[of "Suc i"] 3 by simp
    have t2: "tail (uint (text ! (i + 2)))" using t[of "i + 2"] 3 by simp
    have "0xf0 \<le> b0" using h(6) nl 3 by (auto split: if_splits)
    then show ?thesis using dec4c[OF p0 _ h(5) p1 t1 p2 t2 p3] \<open>z = i + 3\<close> by (simp add: not_tail_0)
  qed
qed

lemma peek_next:
  assumes "last text = 0" "j < length text" "text ! j \<noteq> 0"
  shows "Suc j < length text"
proof (rule ccontr)
  assume "\<not> Suc j < length text"
  then have "j = length text - 1" using assms(2) by simp
  then have "text ! j = last text" using assms(2) by (metis last_conv_nth length_greater_0_conv less_nat_zero_code list.size(3))
  then show False using assms by simp
qed

lemma invalid_cont_result:
  assumes len: "i + k < length text" and nul: "last text = 0" and k: "1 \<le> k"
    "k < nominal_length (uint (text ! i))"
    and bad: "\<not> valid_cont (uint (text ! i)) k (uint (text ! (i + k)))"
  shows "\<exists>n. GetNextCodepoint text i = Some (0x3f, n) \<and> 1 \<le> n \<and> n \<le> nominal_length (uint (text ! i))"
proof -
  define b0 where "b0 = uint (text ! i)"
  define b1 where "b1 = uint (text ! Suc i)"
  have p0: "peek text i = Some b0" using len by (simp add: peek_def b0_def)
  have p1: "peek text (Suc i) = Some b1" using len k(1) by (simp add: peek_def b1_def)
  have r0: "0 \<le> b0" "b0 < 256" using uint_byte[of "text ! i"] by (simp_all add: b0_def)
  note nl = nominal_length_byte[OF r0]
  have k': "k < nominal_length b0" using k(2) by (simp add: b0_def)
  have bad': "\<not> valid_cont b0 k (uint (text ! (i + k)))" using bad by (simp add: b0_def)
  have "0xc0 \<le> b0 \<and> b0 \<le> 0xf7" using k' k(1) nl by (auto split: if_splits)
  then consider (c2) "0xc0 \<le> b0" "b0 \<le> 0xdf" | (c3) "0xe0 \<le> b0" "b0 \<le> 0xef"
    | (c4) "0xf0 \<le> b0" "b0 \<le> 0xf4" | (c5) "0xf5 \<le> b0" "b0 \<le> 0xf7"
    by linarith
  then show ?thesis
  proof cases
    case c2
    then have "k = 1" using k' k(1) nl by simp
    then have "\<not> tail b1" using bad' c2 by (simp add: valid_cont_def b1_def)
    then show ?thesis using dec2[OF p0 c2 p1] nl c2 by (simp add: b0_def)
  next
    case c3
    have n3: "nominal_length (uint (text ! i)) = 3" using nl c3 by (simp add: b0_def)
    show ?thesis
    proof (cases "tail b1")
      case False
      then show ?thesis using dec3a[OF p0 c3 p1] n3 by simp
    next
      case True
      then have "text ! Suc i \<noteq> 0" by (auto simp: b1_def tail_def)
      then have "i + 2 < length text" using peek_next[OF nul, of "Suc i"] len k(1) by simp
      then have p2: "peek text (i + 2) = Some (uint (text ! (i + 2)))" by (simp add: peek_def)
      have "k = 1 \<or> k = 2" using k' k(1) nl c3 by auto
      then have "\<not> tail (uint (text ! (i + 2))) \<or> (b0 = 0xe0 \<and> b1 < 0xa0) \<or> (b0 = 0xed \<and> 0x9f < b1)"
        using bad' True c3 by (auto simp: valid_cont_def b1_def)
      then show ?thesis using dec3b[OF p0 c3 p1 True p2] n3 by auto
    qed
  next
    case c4
    have n4: "nominal_length (uint (text ! i)) = 4" using nl c4 by (simp add: b0_def)
    show ?thesis
    proof (cases "tail b1")
      case False
      then show ?thesis using dec4a[OF p0 c4 p1] n4 by simp
    next
      case t1: True
      then have "text ! Suc i \<noteq> 0" by (auto simp: b1_def tail_def)
      then have l2: "i + 2 < length text" using peek_next[OF nul, of "Suc i"] len k(1) by simp
      then have p2: "peek text (i + 2) = Some (uint (text ! (i + 2)))" by (simp add: peek_def)
      show ?thesis
      proof (cases "tail (uint (text ! (i + 2)))")
        case False
        then show ?thesis using dec4b[OF p0 c4 p1 t1 p2] n4 by simp
      next
        case t2: True
        then have "text ! (i + 2) \<noteq> 0" by (auto simp: tail_def)
        then have "i + 3 < length text" using peek_next[OF nul, of "i + 2"] l2 by (simp add: numeral_3_eq_3)
        then have p3: "peek text (i + 3) = Some (uint (text ! (i + 3)))" by (simp add: peek_def)
        have "k = 1 \<or> k = 2 \<or> k = 3" using k' k(1) nl c4 by auto
        then have "\<not> tail (uint (text ! (i + 3))) \<or> (b0 = 0xf0 \<and> b1 < 0x90) \<or> (b0 = 0xf4 \<and> 0x8f < b1)"
          using bad' t1 t2 c4 by (auto simp: valid_cont_def b1_def)
        then show ?thesis using dec4c[OF p0 c4 p1 t1 p2 t2 p3] n4 by auto
      qed
    qed
  next
    case c5
    then show ?thesis using dec_stray[OF p0] nl by (simp add: b0_def)
  qed
qed

subsection \<open>Decoding an encoded scalar value\<close>

lemma uint_woi: "0 \<le> x \<Longrightarrow> x < 256 \<Longrightarrow> uint (word_of_int x :: byte) = x"
  by (simp add: uint_word_of_int_eq take_bit_int_eq_self)

lemma peek_mid:
  "j < length enc \<Longrightarrow> peek (pre @ enc @ post) (length pre + j) = Some (uint (enc ! j))"
  by (simp add: peek_def nth_append)

lemma roundtrip1:
  assumes "0 \<le> c" "c \<le> 0x7f"
  shows "GetNextCodepoint (pre @ utf8_encode c @ post) (length pre) = Some (c, 1)"
proof -
  have e: "utf8_encode c = [word_of_int c]" using assms by (simp add: utf8_encode_def)
  have "peek (pre @ utf8_encode c @ post) (length pre) = Some c"
    using peek_mid[of 0 "utf8_encode c" pre post] assms by (simp add: e uint_woi)
  then show ?thesis using dec1 assms by simp
qed

lemma div_range:
  fixes c :: int
  assumes "lo \<le> c" "c \<le> hi" "0 < n"
  shows "lo div n \<le> c div n \<and> c div n \<le> hi div n"
  using assms by (simp add: zdiv_mono1)

lemma div_eq_bounds:
  fixes c :: int
  assumes "0 < n" "c div n = k"
  shows "k * n \<le> c \<and> c < k * n + n"
proof -
  have "c = c div n * n + c mod n" by simp
  moreover have "0 \<le> c mod n" "c mod n < n" using assms(1) by simp_all
  ultimately show ?thesis using assms(2) by auto
qed

lemma digits2: "(c::int) div 64 * 64 + c mod 64 = c"
  by simp

lemma digits3: "(c::int) div 4096 * 4096 + (c div 64 mod 64) * 64 + c mod 64 = c"
proof -
  have b: "c div 64 mod 64 = c div 64 - (c div 64 div 64) * 64" by (simp add: minus_div_mult_eq_mod)
  have c: "c mod 64 = c - (c div 64) * 64" by (simp add: minus_div_mult_eq_mod)
  have d: "c div 64 div 64 = c div 4096" by (simp add: zdiv_zmult2_eq)
  show ?thesis unfolding b c d by simp
qed

lemma digits4:
  "(c::int) div 262144 * 262144 + (c div 4096 mod 64) * 4096 + (c div 64 mod 64) * 64 + c mod 64 = c"
proof -
  have a: "c div 4096 mod 64 = c div 4096 - (c div 4096 div 64) * 64" by (simp add: minus_div_mult_eq_mod)
  have b: "c div 64 mod 64 = c div 64 - (c div 64 div 64) * 64" by (simp add: minus_div_mult_eq_mod)
  have c: "c mod 64 = c - (c div 64) * 64" by (simp add: minus_div_mult_eq_mod)
  have d: "c div 4096 div 64 = c div 262144" "c div 64 div 64 = c div 4096" by (simp_all add: zdiv_zmult2_eq)
  show ?thesis unfolding a b c d by simp
qed

lemma add_mult_mod: fixes q :: int assumes "0 \<le> q" "q < n" shows "(n * k + q) mod n = q"
  using assms by simp

lemma lead2_mod: fixes q :: int assumes "0 \<le> q" "q \<le> 31" shows "(0xc0 + q) mod 32 = q"
  using add_mult_mod[of q 32 6] assms by simp

lemma lead3_mod: fixes q :: int assumes "0 \<le> q" "q \<le> 15" shows "(0xe0 + q) mod 16 = q"
  using add_mult_mod[of q 16 14] assms by simp

lemma lead4_mod: fixes q :: int assumes "0 \<le> q" "q \<le> 4" shows "(0xf0 + q) mod 8 = q"
  using add_mult_mod[of q 8 30] assms by simp

lemma tail_mod: fixes q :: int assumes "0 \<le> q" "q < 64"
  shows "(0x80 + q) mod 64 = q"
  using add_mult_mod[of q 64 2] assms by simp

lemma mod64_window: fixes y :: int assumes "64 * k \<le> y" "y \<le> 64 * k + m" "m < 64"
  shows "y mod 64 \<le> m"
proof -
  have "(64 * k + (y - 64 * k)) mod 64 = y - 64 * k" using assms by (intro add_mult_mod) simp_all
  then show ?thesis using assms by simp
qed

lemma roundtrip2:
  assumes "0x80 \<le> c" "c \<le> 0x7ff"
  shows "GetNextCodepoint (pre @ utf8_encode c @ post) (length pre) = Some (c, 2)"
proof -
  define q0 where "q0 = c div 64"
  define q1 where "q1 = c mod 64"
  define b0 where "b0 = 0xc0 + q0"
  define b1 where "b1 = 0x80 + q1"
  have e: "utf8_encode c = [word_of_int b0, word_of_int b1]"
    using assms by (simp add: utf8_encode_def b0_def b1_def q0_def q1_def)
  have q0: "2 \<le> q0" "q0 \<le> 31" using div_range[OF assms, of 64] by (simp_all add: q0_def)
  have q1: "0 \<le> q1" "q1 < 64" by (simp_all add: q1_def)
  have r0: "0xc2 \<le> b0" "b0 \<le> 0xdf" using q0 by (simp_all add: b0_def)
  have r1: "0x80 \<le> b1" "b1 \<le> 0xbf" using q1 by (simp_all add: b1_def)
  have p0: "peek (pre @ utf8_encode c @ post) (length pre) = Some b0"
    using peek_mid[of 0 "utf8_encode c" pre post] r0 by (simp add: e uint_woi)
  have p1: "peek (pre @ utf8_encode c @ post) (Suc (length pre)) = Some b1"
    using peek_mid[of 1 "utf8_encode c" pre post] r1 by (simp add: e uint_woi)
  have m0: "b0 mod 32 = q0" unfolding b0_def using q0 by (intro lead2_mod) simp_all
  have m1: "b1 mod 64 = q1" unfolding b1_def by (rule tail_mod[OF q1])
  have v: "(b0 mod 32) * 64 + b1 mod 64 = c"
    unfolding m0 m1 q0_def q1_def by (rule digits2)
  show ?thesis using dec2[OF p0 _ r0(2) p1] r0 r1 v by (simp add: tail_def)
qed

lemma roundtrip3:
  assumes "0x800 \<le> c" "c \<le> 0xffff" "\<not> (0xd800 \<le> c \<and> c \<le> 0xdfff)"
  shows "GetNextCodepoint (pre @ utf8_encode c @ post) (length pre) = Some (c, 3)"
proof -
  define q0 where "q0 = c div 4096"
  define q1 where "q1 = c div 64 mod 64"
  define q2 where "q2 = c mod 64"
  define b0 where "b0 = 0xe0 + q0"
  define b1 where "b1 = 0x80 + q1"
  define b2 where "b2 = 0x80 + q2"
  have e: "utf8_encode c = [word_of_int b0, word_of_int b1, word_of_int b2]"
    using assms by (simp add: utf8_encode_def b0_def b1_def b2_def q0_def q1_def q2_def)
  have q0: "0 \<le> q0" "q0 \<le> 15" using div_range[OF assms(1,2), of 4096] by (simp_all add: q0_def)
  have q1: "0 \<le> q1" "q1 < 64" by (simp_all add: q1_def)
  have q2: "0 \<le> q2" "q2 < 64" by (simp_all add: q2_def)
  have r0: "0xe0 \<le> b0" "b0 \<le> 0xef" using q0 by (simp_all add: b0_def)
  have r1: "0x80 \<le> b1" "b1 \<le> 0xbf" using q1 by (simp_all add: b1_def)
  have r2: "0x80 \<le> b2" "b2 \<le> 0xbf" using q2 by (simp_all add: b2_def)
  have p0: "peek (pre @ utf8_encode c @ post) (length pre) = Some b0"
    using peek_mid[of 0 "utf8_encode c" pre post] r0 by (simp add: e uint_woi)
  have p1: "peek (pre @ utf8_encode c @ post) (Suc (length pre)) = Some b1"
    using peek_mid[of 1 "utf8_encode c" pre post] r1 by (simp add: e uint_woi)
  have p2: "peek (pre @ utf8_encode c @ post) (length pre + 2) = Some b2"
    using peek_mid[of 2 "utf8_encode c" pre post] r2 by (simp add: e uint_woi)
  have m0: "b0 mod 16 = q0" unfolding b0_def by (rule lead3_mod[OF q0])
  have m1: "b1 mod 64 = q1" unfolding b1_def by (rule tail_mod[OF q1])
  have m2: "b2 mod 64 = q2" unfolding b2_def by (rule tail_mod[OF q2])
  have v: "(b0 mod 16) * 4096 + (b1 mod 64) * 64 + b2 mod 64 = c"
    unfolding m0 m1 m2 q0_def q1_def q2_def by (rule digits3)
  have g1: "\<not> (b0 = 0xe0 \<and> b1 < 0xa0)"
  proof
    assume a: "b0 = 0xe0 \<and> b1 < 0xa0"
    then have "q0 = 0" by (simp add: b0_def)
    then have "c < 4096" using div_eq_bounds[of 4096 c 0] by (simp add: q0_def)
    then have "32 \<le> c div 64 \<and> c div 64 \<le> 63"
      using div_range[of "0x800" c "4095" 64] assms(1) by simp
    then have "32 \<le> q1" unfolding q1_def by simp
    then show False using a by (simp add: b1_def)
  qed
  have g2: "\<not> (b0 = 0xed \<and> 0x9f < b1)"
  proof
    assume a: "b0 = 0xed \<and> 0x9f < b1"
    then have "q0 = 13" by (simp add: b0_def)
    then have "0xd000 \<le> c \<and> c < 0xe000" using div_eq_bounds[of 4096 c 13] by (simp add: q0_def)
    then have "0xd000 \<le> c \<and> c \<le> 0xd7ff" using assms(3) by simp
    then have "832 \<le> c div 64 \<and> c div 64 \<le> 863"
      using div_range[of "0xd000" c "0xd7ff" 64] by simp
    then have "q1 \<le> 31" unfolding q1_def using mod64_window[of 13 "c div 64" 31] by simp
    then show False using a by (simp add: b1_def)
  qed
  show ?thesis using dec3b[OF p0 r0 p1 _ p2] r1 r2 v g1 g2 by (simp add: tail_def)
qed

lemma roundtrip4:
  assumes "0x10000 \<le> c" "c \<le> 0x10ffff"
  shows "GetNextCodepoint (pre @ utf8_encode c @ post) (length pre) = Some (c, 4)"
proof -
  define q0 where "q0 = c div 262144"
  define q1 where "q1 = c div 4096 mod 64"
  define q2 where "q2 = c div 64 mod 64"
  define q3 where "q3 = c mod 64"
  define b0 where "b0 = 0xf0 + q0"
  define b1 where "b1 = 0x80 + q1"
  define b2 where "b2 = 0x80 + q2"
  define b3 where "b3 = 0x80 + q3"
  have e: "utf8_encode c = [word_of_int b0, word_of_int b1, word_of_int b2, word_of_int b3]"
    using assms by (simp add: utf8_encode_def b0_def b1_def b2_def b3_def q0_def q1_def q2_def q3_def)
  have q0: "0 \<le> q0" "q0 \<le> 4" using div_range[OF assms(1,2), of 262144] by (simp_all add: q0_def)
  have q1: "0 \<le> q1" "q1 < 64" by (simp_all add: q1_def)
  have q2: "0 \<le> q2" "q2 < 64" by (simp_all add: q2_def)
  have q3: "0 \<le> q3" "q3 < 64" by (simp_all add: q3_def)
  have r0: "0xf0 \<le> b0" "b0 \<le> 0xf4" using q0 by (simp_all add: b0_def)
  have r1: "0x80 \<le> b1" "b1 \<le> 0xbf" using q1 by (simp_all add: b1_def)
  have r2: "0x80 \<le> b2" "b2 \<le> 0xbf" using q2 by (simp_all add: b2_def)
  have r3: "0x80 \<le> b3" "b3 \<le> 0xbf" using q3 by (simp_all add: b3_def)
  have p0: "peek (pre @ utf8_encode c @ post) (length pre) = Some b0"
    using peek_mid[of 0 "utf8_encode c" pre post] r0 by (simp add: e uint_woi)
  have p1: "peek (pre @ utf8_encode c @ post) (Suc (length pre)) = Some b1"
    using peek_mid[of 1 "utf8_encode c" pre post] r1 by (simp add: e uint_woi)
  have p2: "peek (pre @ utf8_encode c @ post) (length pre + 2) = Some b2"
    using peek_mid[of 2 "utf8_encode c" pre post] r2 by (simp add: e uint_woi)
  have p3: "peek (pre @ utf8_encode c @ post) (length pre + 3) = Some b3"
    using peek_mid[of 3 "utf8_encode c" pre post] r3 by (simp add: e uint_woi)
  have m0: "b0 mod 8 = q0" unfolding b0_def by (rule lead4_mod[OF q0])
  have m1: "b1 mod 64 = q1" unfolding b1_def by (rule tail_mod[OF q1])
  have m2: "b2 mod 64 = q2" unfolding b2_def by (rule tail_mod[OF q2])
  have m3: "b3 mod 64 = q3" unfolding b3_def by (rule tail_mod[OF q3])
  have v: "(b0 mod 8) * 262144 + (b1 mod 64) * 4096 + (b2 mod 64) * 64 + b3 mod 64 = c"
    unfolding m0 m1 m2 m3 q0_def q1_def q2_def q3_def by (rule digits4)
  have g1: "\<not> (b0 = 0xf0 \<and> b1 < 0x90)"
  proof
    assume a: "b0 = 0xf0 \<and> b1 < 0x90"
    then have "q0 = 0" by (simp add: b0_def)
    then have "c < 262144" using div_eq_bounds[of 262144 c 0] by (simp add: q0_def)
    then have "16 \<le> c div 4096 \<and> c div 4096 \<le> 63"
      using div_range[of "0x10000" c "262143" 4096] assms(1) by simp
    then have "16 \<le> q1" unfolding q1_def by simp
    then show False using a by (simp add: b1_def)
  qed
  have g2: "\<not> (b0 = 0xf4 \<and> 0x8f < b1)"
  proof
    assume a: "b0 = 0xf4 \<and> 0x8f < b1"
    then have "q0 = 4" by (simp add: b0_def)
    then have "0x100000 \<le> c" using div_eq_bounds[of 262144 c 4] by (simp add: q0_def)
    then have "256 \<le> c div 4096 \<and> c div 4096 \<le> 271"
      using div_range[of "0x100000" c "0x10ffff" 4096] assms(2) by simp
    then have "q1 \<le> 15" unfolding q1_def using mod64_window[of 4 "c div 4096" 15] by simp
    then show False using a by (simp add: b1_def)
  qed
  show ?thesis using dec4c[OF p0 r0 p1 _ p2 _ p3] r1 r2 r3 v g1 g2 by (simp add: tail_def)
qed

subsection \<open>Reads stay before the null byte\<close>

lemma peek_take: "k \<le> z \<Longrightarrow> z < length buf \<Longrightarrow> peek (take (Suc z) buf) k = peek buf k"
  by (simp add: peek_def)

lemma stays_in_buffer:
  assumes "i \<le> z" "z < length buf" "buf ! z = 0"
  shows "\<exists>r. GetNextCodepoint buf i = Some r \<and> GetNextCodepoint (take (Suc z) buf) i = Some r"
proof -
  have pz: "peek buf z = Some 0" using assms by (simp add: peek_def)
  consider "i = z" | "i + 1 = z" | "i + 2 = z" | "i + 3 = z" | "i + 3 < z" using assms(1) by linarith
  then show ?thesis
  proof cases
    case 1
    then show ?thesis using pz assms by (simp add: GetNextCodepoint_def peek_take finish_def)
  next
    case 2
    then have "peek buf (i+1) = Some 0" "i < length buf" using pz assms by auto
    then show ?thesis using assms 2
      by (simp add: GetNextCodepoint_def peek_take finish_def) (simp add: peek_def finish_def)
  next
    case 3
    then have "peek buf (i+2) = Some 0" "i < length buf" "i + 1 < length buf" using pz assms by auto
    then show ?thesis using assms 3
      by (simp add: GetNextCodepoint_def peek_take finish_def) (simp add: peek_def finish_def)
  next
    case 4
    then have "peek buf (i+3) = Some 0" "i < length buf" "i + 1 < length buf" "i + 2 < length buf"
      using pz assms by auto
    then show ?thesis using assms 4
      by (simp add: GetNextCodepoint_def peek_take finish_def) (simp add: peek_def finish_def)
  next
    case 5
    then have  "i < length buf" "i + 1 < length buf" "i + 2 < length buf" "i + 3 < length buf"
      using pz assms by auto
    then show ?thesis using assms 5
      by (simp add: GetNextCodepoint_def peek_take finish_def) (simp add: peek_def finish_def)
  qed
qed

subsection \<open>Claims about the decoder\<close>

text \<open>
  Claim C3. For every Unicode scalar value (\<open>U+0000..U+10FFFF\<close> without the surrogates
  \<open>U+D800..U+DFFF\<close>), decoding its standard UTF-8 encoding, wherever it stands in a
  buffer and whatever follows it, returns that scalar value and a byte count equal to the
  length of the encoding, which is 1, 2, 3 or 4 according to the encoding class.
\<close>

theorem GetNextCodepoint_utf8_encode:
  assumes "scalar_value c"
  shows "GetNextCodepoint (pre @ utf8_encode c @ post) (length pre) = Some (c, length (utf8_encode c))
       \<and> length (utf8_encode c) =
           (if c \<le> 0x7f then 1 else if c \<le> 0x7ff then 2 else if c \<le> 0xffff then 3 else 4)"
proof -
  have l: "length (utf8_encode c) =
           (if c \<le> 0x7f then 1 else if c \<le> 0x7ff then 2 else if c \<le> 0xffff then 3 else 4)"
    by (simp add: utf8_encode_def)
  consider "c \<le> 0x7f" | "0x80 \<le> c" "c \<le> 0x7ff" | "0x800 \<le> c" "c \<le> 0xffff" | "0x10000 \<le> c"
    by linarith
  then have "GetNextCodepoint (pre @ utf8_encode c @ post) (length pre) = Some (c, length (utf8_encode c))"
  proof cases
    case 1 then show ?thesis using roundtrip1[of c pre post] assms l by (simp add: scalar_value_def)
  next
    case 2 then show ?thesis using roundtrip2[of c pre post] l by simp
  next
    case 3 then show ?thesis using roundtrip3[of c pre post] assms l by (simp add: scalar_value_def)
  next
    case 4 then show ?thesis using roundtrip4[of c pre post] assms l by (simp add: scalar_value_def)
  qed
  then show ?thesis using l by simp
qed

text \<open>The euro sign \<open>U+20AC\<close>, encoded \<open>E2 82 AC\<close>, in a null-terminated buffer.\<close>

theorem GetNextCodepoint_utf8_encode_witness:
  "scalar_value 0x20ac \<and> utf8_encode 0x20ac = [0xe2, 0x82, 0xac] \<and>
   GetNextCodepoint [0xe2, 0x82, 0xac, 0] 0 = Some (0x20ac, 3)"
proof -
  have s: "scalar_value 0x20ac" by (simp add: scalar_value_def)
  have e: "utf8_encode 0x20ac = [0xe2, 0x82, 0xac]" by (simp add: utf8_encode_def)
  show ?thesis
    using GetNextCodepoint_utf8_encode[OF s, of "[]" "[0]"] s e by simp
qed

text \<open>
  Claim C2. In a null-terminated buffer, when the sequence announced by the lead octet at
  position \<open>i\<close> has a continuation byte (number \<open>k\<close>, within the nominal length) that is
  not a valid continuation, because the string ends there (a null byte), or the byte is
  not a tail byte, or it is outside the range its lead requires, the decoder returns
  \<open>0x3F\<close> with a byte count between 1 and the nominal length. In particular the
  sequence \<open>E0 9F 80\<close> decodes to \<open>0x3F\<close> with byte count exactly 2.
\<close>

theorem GetNextCodepoint_invalid_continuation:
  "(i + k < length text \<and> last text = 0 \<and> 1 \<le> k \<and> k < nominal_length (uint (text ! i)) \<and>
    \<not> valid_cont (uint (text ! i)) k (uint (text ! (i + k)))
    \<longrightarrow> (\<exists>n. GetNextCodepoint text i = Some (0x3f, n) \<and> 1 \<le> n \<and>
              n \<le> nominal_length (uint (text ! i))))
   \<and> GetNextCodepoint [0xe0, 0x9f, 0x80, 0] 0 = Some (0x3f, 2)"
proof -
  have "GetNextCodepoint [0xe0, 0x9f, 0x80, 0] 0 = Some (0x3f, 2)"
    by (simp add: GetNextCodepoint_def peek_def finish_def)
  then show ?thesis using invalid_cont_result[of i k "text"] by blast
qed

text \<open>A two-byte lead \<open>C3\<close> followed by the ASCII byte \<open>28\<close>.\<close>

theorem GetNextCodepoint_invalid_continuation_witness:
  "nominal_length (uint (0xc3 :: byte)) = 2 \<and> \<not> valid_cont (uint (0xc3 :: byte)) 1 (uint (0x28 :: byte)) \<and>
   (\<exists>n. GetNextCodepoint [0xc3, 0x28, 0] 0 = Some (0x3f, n) \<and> 1 \<le> n \<and> n \<le> 2)"
proof -
  have n: "nominal_length (uint (0xc3 :: byte)) = 2" by (simp add: nominal_length_def)
  have v: "\<not> valid_cont (uint (0xc3 :: byte)) 1 (uint (0x28 :: byte))"
    by (simp add: valid_cont_def tail_def)
  show ?thesis
    using GetNextCodepoint_invalid_continuation[of 0 1 "[0xc3, 0x28, 0]"] n v by simp
qed

text \<open>
  Claim C4. Let the byte at position \<open>z\<close> of the buffer be null and let decoding start at
  a position \<open>i \<le> z\<close>. The decoder returns a result, and it returns the same result on
  the buffer cut off right after that null byte, where any read of a later byte would
  leave the buffer: no byte past the null is inspected. When a multi-byte sequence is
  truncated by the null, the result is the replacement codepoint \<open>0x3F\<close> with the
  number of bytes inspected, \<open>z - i + 1\<close>: the lead, the tail bytes and the null.
\<close>

theorem GetNextCodepoint_stops_at_null:
  assumes "i \<le> z" "z < length text" "text ! z = 0"
  shows "(\<exists>r. GetNextCodepoint text i = Some r \<and> GetNextCodepoint (take (Suc z) text) i = Some r)
       \<and> (truncated_at text i z \<longrightarrow> GetNextCodepoint text i = Some (0x3f, z - i + 1))"
  using stays_in_buffer[OF assms] truncated_result[of "text" i z] by blast

text \<open>The first two bytes of the euro sign, then the null, then unrelated memory.\<close>

theorem GetNextCodepoint_stops_at_null_witness:
  "truncated_at [0xe2, 0x82, 0, 0x41] 0 2 \<and>
   GetNextCodepoint [0xe2, 0x82, 0, 0x41] 0 = Some (0x3f, 3) \<and>
   GetNextCodepoint [0xe2, 0x82, 0] 0 = Some (0x3f, 3)"
proof -
  have t: "truncated_at [0xe2, 0x82, 0, 0x41] 0 2"
    by (simp add: truncated_at_def nominal_length_def tail_def less_Suc_eq)
  show ?thesis
    using GetNextCodepoint_stops_at_null[of 0 2 "[0xe2, 0x82, 0, 0x41]"] t by auto
qed

section \<open>Proofs: glyph lookup\<close>

text \<open>A codepoint that occurs among the first \<open>charsCount\<close> glyphs gets the index of its
  first occurrence.\<close>

lemma GetGlyphIndex_loop_first:
  "i \<le> k \<Longrightarrow> k < i + n \<Longrightarrow> i + n \<le> length cs \<Longrightarrow> charValue (cs ! k) = codepoint \<Longrightarrow>
   (\<forall>j. i \<le> j \<and> j < k \<longrightarrow> charValue (cs ! j) \<noteq> codepoint) \<Longrightarrow>
   GetGlyphIndex_loop cs codepoint i n = Some k"
proof (induction n arbitrary: i)
  case 0
  then show ?case by simp
next
  case (Suc n)
  have g: "array_get cs i = Some (cs ! i)" using Suc.prems by (simp add: array_get_def)
  show ?case
  proof (cases "i = k")
    case True
    then show ?thesis using Suc.prems g by simp
  next
    case False
    then have ne: "charValue (cs ! i) \<noteq> codepoint" using Suc.prems by auto
    have "GetGlyphIndex_loop cs codepoint (Suc i) n = Some k"
      using Suc.prems False by (intro Suc.IH) auto
    then show ?thesis using g ne by simp
  qed
qed

lemma GetGlyphIndex_present:
  assumes "k < nat (charsCount font)" "nat (charsCount font) \<le> length (chars font)"
    "charValue (chars font ! k) = codepoint"
    "\<forall>j<k. charValue (chars font ! j) \<noteq> codepoint"
  shows "GetGlyphIndex font codepoint = Some k"
  unfolding GetGlyphIndex_def using assms by (intro GetGlyphIndex_loop_first) auto

text \<open>The index that the lookup returns is below \<open>charsCount\<close> or is 63.\<close>

lemma GetGlyphIndex_loop_range:
  "GetGlyphIndex_loop cs codepoint i n = Some k \<Longrightarrow> k < i + n \<or> k = TEXT_CHARACTER_NOTFOUND"
proof (induction n arbitrary: i)
  case 0
  then show ?case by simp
next
  case (Suc n)
  show ?case
  proof (cases "charValue (cs ! i) = codepoint")
    case True
    then show ?thesis using Suc.prems by (simp add: array_get_def split: if_splits)
  next
    case False
    then have "GetGlyphIndex_loop cs codepoint (Suc i) n = Some k"
      using Suc.prems by (simp add: array_get_def split: if_splits)
    then show ?thesis using Suc.IH[of "Suc i"] by auto
  qed
qed

lemma GetGlyphIndex_loop_total:
  "i + n \<le> length cs \<Longrightarrow> \<exists>k. GetGlyphIndex_loop cs codepoint i n = Some k"
  by (induction n arbitrary: i) (auto simp: array_get_def)

lemma GetGlyphIndex_defined:
  assumes "charsCount font \<le> int (length (chars font))"
  shows "\<exists>k. GetGlyphIndex font codepoint = Some k"
proof -
  have "0 + nat (charsCount font) \<le> length (chars font)" using assms by (simp add: nat_le_iff)
  then show ?thesis unfolding GetGlyphIndex_def by (rule GetGlyphIndex_loop_total)
qed

text \<open>
  Claim C6, at a failing input. On the font with the default layout (the codepoints 32 to
  126 in order) a codepoint that is absent, such as \<open>U+20AC\<close>, gets the index 63. The
  glyph at index 63 is the underscore (codepoint 95); the glyph of the replacement
  character \<open>?\<close> (codepoint 63) is at index 31. On a font with a single glyph the index 63
  is outside the glyph array.
\<close>

theorem GetGlyphIndex_fallback_index:
  "GetGlyphIndex ascii_font 0x20ac = Some 63 \<and> charValue (chars ascii_font ! 63) = 0x5f \<and>
   GetGlyphIndex ascii_font 0x3f = Some 31 \<and>
   GetGlyphIndex zero_advance_font 0x42 = Some 63 \<and> length (chars zero_advance_font) = 1"
  by code_simp

section \<open>Proofs: the glyph metrics extractor\<close>

lemma LoadFontData_glyph_defined:
  "type \<noteq> FONT_BITMAP \<Longrightarrow> \<exists>c. LoadFontData_glyph stb fontBuffer scaleFactor ascent type i ch = Some c"
  by (simp add: LoadFontData_glyph_def Let_def)

lemma LoadFontData_loop_length:
  assumes "type \<noteq> FONT_BITMAP"
  shows "i + n \<le> length fontChars \<Longrightarrow>
    \<exists>cs'. LoadFontData_loop stb fontBuffer scaleFactor ascent fontChars type i n cs = Some cs'
           \<and> length cs' = length cs + n"
proof (induction n arbitrary: i cs)
  case 0
  then show ?case by simp
next
  case (Suc n)
  obtain c where c: "LoadFontData_glyph stb fontBuffer scaleFactor ascent type i (fontChars ! i) = Some c"
    using LoadFontData_glyph_defined[OF assms] by blast
  have g: "array_get fontChars i = Some (fontChars ! i)" using Suc.prems by (simp add: array_get_def)
  obtain cs' where "LoadFontData_loop stb fontBuffer scaleFactor ascent fontChars type (Suc i) n (cs @ [c]) = Some cs'"
    "length cs' = length (cs @ [c]) + n"
    using Suc.IH[of "Suc i" "cs @ [c]"] Suc.prems by auto
  then show ?case by (simp add: g c)
qed

lemma chars_or_default_pos: "0 < chars_or_default k"
  by (simp add: chars_or_default_def)

text \<open>
  Claim C5, at the failing inputs. When the file can be read and \<open>stbtt_InitFont\<close> rejects
  its bytes, \<open>LoadFontData\<close> logs the warning and goes on: with the default codepoint list
  and the default font type it returns a glyph array of the full requested length, built
  from whatever the rasterizer functions give for the rejected buffer, and not an empty
  result.
\<close>

theorem LoadFontData_init_failure:
  assumes "\<not> stbtt_InitFont stb fontBuffer"
  shows "\<exists>cs. LoadFontData stb (Some fontBuffer) fontSize None count FONT_DEFAULT
           = Some \<lparr>loaded = Some cs, trace = [LOG_WARNING ''Failed to init font!'']\<rparr>
        \<and> length cs = chars_or_default count \<and> cs \<noteq> []"
proof -
  define n where "n = chars_or_default count"
  define fc where "fc = map (\<lambda>i. int i + 32) [0..<n]"
  have "0 + n \<le> length fc" by (simp add: fc_def)
  then obtain cs where cs: "LoadFontData_loop stb fontBuffer
        (stbtt_ScaleForPixelHeight stb fontBuffer (real_of_int fontSize))
        (stbtt_GetFontVMetrics_ascent stb fontBuffer) fc FONT_DEFAULT 0 n [] = Some cs"
      "length cs = length ([]::CharInfo list) + n"
    using LoadFontData_loop_length[of FONT_DEFAULT 0 n fc stb fontBuffer _ _ "[]"] by auto
  have "cs \<noteq> []" using cs(2) chars_or_default_pos[of count] by (auto simp: n_def)
  then show ?thesis
    using cs assms by (simp add: LoadFontData_def Let_def n_def[symmetric] fc_def[symmetric])
qed

text \<open>A two-byte text file, which no rasterizer accepts as a font; 95 glyphs requested.\<close>

theorem LoadFontData_init_failure_witness:
  "\<not> stbtt_InitFont rejecting_rasterizer [0x68, 0x69] \<and>
   (\<exists>cs. LoadFontData rejecting_rasterizer (Some [0x68, 0x69]) 32 None 95 FONT_DEFAULT
           = Some \<lparr>loaded = Some cs, trace = [LOG_WARNING ''Failed to init font!'']\<rparr>
        \<and> length cs = 95)"
proof -
  have h: "\<not> stbtt_InitFont rejecting_rasterizer [0x68, 0x69]"
    by (simp add: rejecting_rasterizer_def)
  have n: "chars_or_default 95 = 95" by (simp add: chars_or_default_def)
  show ?thesis using LoadFontData_init_failure[OF h, of 32 95] h n by auto
qed

section \<open>Proofs: single-precision arithmetic\<close>

subsection \<open>Powers of two and the exponent of a number\<close>

lemma pow2_powr: "pow2 k = 2 powr (real_of_int k)"
proof (cases "0 \<le> k")
  case True
  then show ?thesis by (simp add: pow2_def powr_realpow[symmetric])
next
  case False
  then have "2 powr (real_of_int k) = 1 / 2 powr (real (nat (- k)))"
    by (simp add: powr_minus_divide[symmetric])
  then show ?thesis using False by (simp add: pow2_def powr_realpow[symmetric])
qed

lemma pow2_pos: "0 < pow2 k"
  by (simp add: pow2_powr)

lemma pow2_add: "pow2 (a + b) = pow2 a * pow2 b"
  by (simp add: pow2_powr powr_add)

lemma pow2_diff: "pow2 (a - b) = pow2 a / pow2 b"
  by (simp add: pow2_powr powr_diff)

lemma pow2_le_iff: "pow2 a \<le> pow2 b \<longleftrightarrow> a \<le> b"
  by (simp add: pow2_powr)

lemma pow2_less_iff: "pow2 a < pow2 b \<longleftrightarrow> a < b"
  by (simp add: pow2_powr)

lemma pow2_nat: "pow2 (int n) = 2 ^ n"
  by (simp add: pow2_def)

lemma pow2_numeral: "pow2 (numeral n) = 2 ^ numeral n"
  by (simp add: pow2_def)

lemma binade_bounds:
  assumes "0 < x"
  shows "pow2 (binade x) \<le> x \<and> x < pow2 (binade x + 1)"
proof (cases "1 \<le> x")
  case True
  define n where "n = \<lfloor>x\<rfloor>"
  have n: "0 < n" using True by (simp add: n_def)
  note b = bitlen_bounds[OF n]
  have bl: "1 \<le> bitlen n" using n bitlen_nonneg[of n] bitlen_eq_zero_iff[of n] by linarith
  have e: "binade x = bitlen n - 1" using True by (simp add: binade_def n_def)
  have "pow2 (bitlen n - 1) = 2 ^ nat (bitlen n - 1)" using bl by (simp add: pow2_def)
  also have "\<dots> = real_of_int (2 ^ nat (bitlen n - 1))" by simp
  also have "\<dots> \<le> real_of_int n" using b by (simp only: of_int_le_iff)
  also have "\<dots> \<le> x" by (simp add: n_def)
  finally have lo: "pow2 (binade x) \<le> x" unfolding e .
  have "n + 1 \<le> 2 ^ nat (bitlen n)" using b by simp
  then have "real_of_int (n + 1) \<le> real_of_int (2 ^ nat (bitlen n))" by (simp only: of_int_le_iff)
  moreover have "x < real_of_int (n + 1)" unfolding n_def by linarith
  ultimately have "x < 2 ^ nat (bitlen n)" by simp
  moreover have "pow2 (bitlen n - 1 + 1) = 2 ^ nat (bitlen n)" using bl by (simp add: pow2_def)
  ultimately have "x < pow2 (binade x + 1)" unfolding e by simp
  then show ?thesis using lo by simp
next
  case False
  define y where "y = 1 / x"
  have y1: "1 < y" using False assms by (simp add: y_def)
  define m where "m = \<lceil>y\<rceil> - 1"
  have m: "0 < m" using y1 unfolding m_def by linarith
  note b = bitlen_bounds[OF m]
  have bl: "1 \<le> bitlen m" using m bitlen_nonneg[of m] bitlen_eq_zero_iff[of m] by linarith
  have e: "binade x = - bitlen m" using False by (simp add: binade_def m_def y_def)
  have "m + 1 \<le> 2 ^ nat (bitlen m)" using b by simp
  then have "real_of_int (m + 1) \<le> real_of_int (2 ^ nat (bitlen m))" by (simp only: of_int_le_iff)
  moreover have "y \<le> real_of_int (m + 1)" unfolding m_def by linarith
  ultimately have yu: "y \<le> 2 ^ nat (bitlen m)" by simp
  have "real_of_int (2 ^ nat (bitlen m - 1)) \<le> real_of_int m" using b by (simp only: of_int_le_iff)
  moreover have "real_of_int m < y" unfolding m_def by linarith
  moreover have "real_of_int (2 ^ nat (bitlen m - 1)) = 2 ^ nat (bitlen m - 1)" by simp
  ultimately have yl: "2 ^ nat (bitlen m - 1) < y" by linarith
  have x: "x = 1 / y" by (simp add: y_def)
  have p1: "pow2 (- bitlen m) = 1 / 2 ^ nat (bitlen m)" using bl by (simp add: pow2_def)
  have p2: "pow2 (- bitlen m + 1) = 1 / 2 ^ nat (bitlen m - 1)"
  proof (cases "bitlen m = 1")
    case True
    then show ?thesis by (simp add: pow2_def)
  next
    case False
    then have "nat (- (- bitlen m + 1)) = nat (bitlen m - 1)" by simp
    then show ?thesis using False bl by (simp add: pow2_def)
  qed
  have "1 / 2 ^ nat (bitlen m) \<le> 1 / y" using yu y1 by (simp add: frac_le)
  then have a1: "1 / 2 ^ nat (bitlen m) \<le> x" unfolding x .
  have "1 / y < 1 / 2 ^ nat (bitlen m - 1)" using yl by (simp add: frac_less2)
  then have a2: "x < 1 / 2 ^ nat (bitlen m - 1)" unfolding x .
  show ?thesis unfolding e p1 p2 using a1 a2 by simp
qed

lemma binade_unique:
  assumes "0 < x" "pow2 e \<le> x" "x < pow2 (e + 1)"
  shows "binade x = e"
proof -
  note b = binade_bounds[OF assms(1)]
  have "pow2 e < pow2 (binade x + 1)" using assms(2) b by linarith
  then have 1: "e < binade x + 1" by (simp only: pow2_less_iff)
  have "pow2 (binade x) < pow2 (e + 1)" using assms(3) b by linarith
  then have 2: "binade x < e + 1" by (simp only: pow2_less_iff)
  show ?thesis using 1 2 by linarith
qed

subsection \<open>Rounding\<close>

text \<open>
  A number \<open>n \<times> 2\<^sup>q\<close> with \<open>0 < n \<le> 2\<^sup>2\<^sup>4\<close> and \<open>q \<ge> -149\<close> below \<open>2\<^sup>1\<^sup>2\<^sup>8\<close> is
  a value of the format, and rounding leaves it as it is. Every result of \<open>round32\<close>
  that is finite has this form, so rounding twice is rounding once; the integers up to
  \<open>2\<^sup>2\<^sup>4\<close> in magnitude and the powers of two are exact. A number closer than half a
  spacing to a value of its own binade rounds to that value.
\<close>

lemma round_even_of_int: "round_even (real_of_int n) = n"
  by (simp add: round_even_def)

lemma round_even_le: "y \<le> real_of_int n \<Longrightarrow> round_even y \<le> n"
  unfolding round_even_def Let_def by (auto; linarith)

lemma round_even_ge: "real_of_int n \<le> y \<Longrightarrow> n \<le> round_even y"
  unfolding round_even_def Let_def by (auto; linarith)

lemma pow2_24: "pow2 24 = 16777216"
  by (simp add: pow2_def)

lemma pow2_23: "pow2 23 = 8388608"
  by (simp add: pow2_def)

lemma pow2_0: "pow2 0 = 1"
  by (simp add: pow2_def)

lemma round32_pos_representable:
  assumes n: "0 < n" "n \<le> 2 ^ 24" and q: "- 149 \<le> q"
    and r: "real_of_int n * pow2 q < 2 ^ 128"
  shows "round32_pos (real_of_int n * pow2 q) = Finite (real_of_int n * pow2 q)"
proof -
  define y where "y = real_of_int n * pow2 q"
  have y0: "0 < y" using n(1) pow2_pos[of q] by (simp add: y_def)
  define q' where "q' = max (binade y) (- 126) - 23"
  have "\<exists>k. y / pow2 q' = real_of_int k"
  proof (cases "n = 2 ^ 24")
    case True
    have y: "y = pow2 (q + 24)" unfolding y_def True by (simp add: pow2_add pow2_24)
    have "binade y = q + 24"
      by (rule binade_unique[OF y0]) (simp_all add: y pow2_le_iff pow2_less_iff)
    then have "q' = q + 1" using q by (simp add: q'_def)
    then have "y / pow2 q' = pow2 (q + 24 - (q + 1))" by (simp only: y pow2_diff)
    also have "\<dots> = real_of_int (2 ^ 23)" by (simp add: pow2_23)
    finally show ?thesis by blast
  next
    case False
    then have "n < 2 ^ 24" using n(2) by simp
    then have "real_of_int n < real_of_int (2 ^ 24)" by (simp only: of_int_less_iff)
    then have "y < 2 ^ 24 * pow2 q" unfolding y_def using pow2_pos[of q] by simp
    also have "\<dots> = pow2 (q + 24)" by (simp add: pow2_add pow2_24)
    finally have "pow2 (binade y) < pow2 (q + 24)" using binade_bounds[OF y0] by linarith
    then have "binade y < q + 24" by (simp only: pow2_less_iff)
    then have le: "q' \<le> q" using q by (simp add: q'_def)
    have "y / pow2 q' = real_of_int n * pow2 (q - q')" by (simp add: y_def pow2_diff)
    also have "pow2 (q - q') = 2 ^ nat (q - q')" using le by (simp add: pow2_def)
    also have "real_of_int n * 2 ^ nat (q - q') = real_of_int (n * 2 ^ nat (q - q'))" by simp
    finally show ?thesis by blast
  qed
  then obtain k where k: "y / pow2 q' = real_of_int k" by blast
  have "real_of_int (round_even (y / pow2 q')) * pow2 q' = y"
    unfolding k round_even_of_int using k pow2_pos[of q'] by (simp add: field_simps)
  then show ?thesis
    using r unfolding round32_pos_def Let_def q'_def[symmetric] y_def[symmetric] by simp
qed

lemma round32_pos_form:
  assumes "0 < x"
  shows "round32_pos x = PInf \<or>
         (\<exists>n q. 0 \<le> n \<and> n \<le> 2 ^ 24 \<and> - 149 \<le> q \<and> real_of_int n * pow2 q < 2 ^ 128 \<and>
                 round32_pos x = Finite (real_of_int n * pow2 q))"
proof -
  define q where "q = max (binade x) (- 126) - 23"
  define n where "n = round_even (x / pow2 q)"
  have "binade x + 1 \<le> q + 24" by (simp add: q_def)
  then have "pow2 (binade x + 1) \<le> pow2 (q + 24)" by (simp only: pow2_le_iff)
  then have "x < pow2 (q + 24)" using binade_bounds[OF assms] by linarith
  also have "\<dots> = 2 ^ 24 * pow2 q" by (simp add: pow2_add pow2_24)
  finally have "x / pow2 q < 2 ^ 24" using pow2_pos[of q] by (simp add: field_simps)
  then have "x / pow2 q \<le> real_of_int (2 ^ 24)" by simp
  then have hi: "n \<le> 2 ^ 24" unfolding n_def by (rule round_even_le)
  have "real_of_int 0 \<le> x / pow2 q" using assms pow2_pos[of q] by simp
  then have lo: "0 \<le> n" unfolding n_def by (rule round_even_ge)
  have q: "- 149 \<le> q" by (simp add: q_def)
  show ?thesis
  proof (cases "2 ^ 128 \<le> real_of_int n * pow2 q")
    case True
    then show ?thesis by (simp add: round32_pos_def Let_def q_def[symmetric] n_def[symmetric])
  next
    case False
    then have "round32_pos x = Finite (real_of_int n * pow2 q)"
      by (simp add: round32_pos_def Let_def q_def[symmetric] n_def[symmetric])
    then show ?thesis using lo hi q False by (intro disjI2 exI[of _ n] exI[of _ q]) simp
  qed
qed

lemma round32_pos_nonneg: "0 < x \<Longrightarrow> round32_pos x = Finite y \<Longrightarrow> 0 \<le> y"
  using round32_pos_form[of x] pow2_pos by (auto simp: zero_le_mult_iff less_imp_le)

lemma round32_zero: "round32 0 = Finite 0"
  by (simp add: round32_def)

lemma round32_minus: "round32 (- x) = fneg (round32 x)"
proof -
  have f: "fneg (fneg a) = a" for a by (cases a) simp_all
  show ?thesis by (simp add: round32_def f)
qed

lemma round32_pos_idem:
  assumes "0 < x" "round32_pos x = Finite y"
  shows "round32 y = Finite y"
proof -
  obtain n q where f: "0 \<le> n" "n \<le> 2 ^ 24" "- 149 \<le> q" "real_of_int n * pow2 q < 2 ^ 128"
    "round32_pos x = Finite (real_of_int n * pow2 q)"
    using round32_pos_form[OF assms(1)] assms(2) by auto
  have y: "y = real_of_int n * pow2 q" using f(5) assms(2) by simp
  show ?thesis
  proof (cases "n = 0")
    case True
    then show ?thesis by (simp add: y round32_def)
  next
    case False
    then have n: "0 < n" using f(1) by simp
    then have "0 < y" using pow2_pos[of q] by (simp add: y)
    then show ?thesis
      using round32_pos_representable[OF n f(2,3,4)] by (simp add: round32_def y)
  qed
qed

lemma round32_idem:
  assumes "round32 x = Finite y"
  shows "round32 y = Finite y"
proof -
  consider "x = 0" | "0 < x" | "x < 0" by linarith
  then show ?thesis
  proof cases
    case 1
    then show ?thesis using assms by (simp add: round32_def)
  next
    case 2
    then show ?thesis using assms round32_pos_idem[of x y] by (simp add: round32_def)
  next
    case 3
    then have "fneg (round32_pos (- x)) = Finite y" using assms by (simp add: round32_def)
    then have "round32_pos (- x) = Finite (- y)" by (cases "round32_pos (- x)") simp_all
    then have "round32 (- y) = Finite (- y)" using 3 round32_pos_idem[of "- x" "- y"] by simp
    then show ?thesis by (simp add: round32_minus) (cases "round32 y"; simp)
  qed
qed

lemma round32_of_int:
  assumes "\<bar>n\<bar> \<le> 2 ^ 24"
  shows "round32 (real_of_int n) = Finite (real_of_int n)"
proof -
  have p: "round32_pos (real_of_int m) = Finite (real_of_int m)" if "0 < m" "m \<le> 2 ^ 24" for m
  proof -
    have "real_of_int m \<le> real_of_int (2 ^ 24)" using that(2) by (simp only: of_int_le_iff)
    then have "real_of_int m * pow2 0 < 2 ^ 128" by (simp add: pow2_0)
    then show ?thesis using round32_pos_representable[OF that, of 0] by (simp add: pow2_0)
  qed
  consider "n = 0" | "0 < n" | "n < 0" by linarith
  then show ?thesis
  proof cases
    case 1
    then show ?thesis by (simp add: round32_def)
  next
    case 2
    then show ?thesis using p[of n] assms by (simp add: round32_def)
  next
    case 3
    then show ?thesis using p[of "- n"] assms by (simp add: round32_def)
  qed
qed

lemma round32_power2:
  assumes "k < 128"
  shows "round32 (2 ^ k) = Finite (2 ^ k)"
proof -
  have "(2::real) ^ k < 2 ^ 128" using assms by (intro power_strict_increasing) simp_all
  then have "real_of_int 1 * pow2 (int k) < 2 ^ 128" by (simp add: pow2_nat)
  then have "round32_pos (real_of_int 1 * pow2 (int k)) = Finite (real_of_int 1 * pow2 (int k))"
    by (intro round32_pos_representable) simp_all
  then show ?thesis by (simp add: round32_def pow2_nat)
qed

lemma round_even_near:
  assumes "\<bar>y - real_of_int n\<bar> < 1 / 2"
  shows "round_even y = n"
proof -
  have "\<lfloor>y\<rfloor> = n \<or> \<lfloor>y\<rfloor> = n - 1" using assms by linarith
  then show ?thesis
  proof
    assume f: "\<lfloor>y\<rfloor> = n"
    then have "y - real_of_int n < 1 / 2" using assms by linarith
    then show ?thesis by (simp add: round_even_def f)
  next
    assume f: "\<lfloor>y\<rfloor> = n - 1"
    have "real_of_int n - 1 / 2 < y" using assms by linarith
    then have "1 / 2 < y - real_of_int (n - 1)" by simp
    then show ?thesis by (simp add: round_even_def f)
  qed
qed

lemma round32_pos_nearest:
  assumes n: "2 ^ 23 \<le> n" "n < 2 ^ 24" and q: "- 149 \<le> q" "q \<le> 104"
    and lo: "(real_of_int n - 1 / 2) * pow2 q < x" and hi: "x < (real_of_int n + 1 / 2) * pow2 q"
    and b: "2 ^ 23 * pow2 q \<le> x"
  shows "round32_pos x = Finite (real_of_int n * pow2 q)"
proof -
  have x0: "0 < x" using b pow2_pos[of q] by (smt (verit) mult_pos_pos zero_less_power)
  have "real_of_int n + 1 / 2 \<le> 2 ^ 24"
  proof -
    have "n + 1 \<le> 2 ^ 24" using n(2) by simp
    then have "real_of_int (n + 1) \<le> real_of_int (2 ^ 24)" by (simp only: of_int_le_iff)
    then show ?thesis by simp
  qed
  then have "(real_of_int n + 1 / 2) * pow2 q \<le> 2 ^ 24 * pow2 q"
    using pow2_pos[of q] by (simp add: mult_right_mono)
  then have xu: "x < pow2 (q + 24)" using hi by (simp add: pow2_add pow2_24)
  have xl: "pow2 (q + 23) \<le> x" using b by (simp add: pow2_add pow2_23)
  have "binade x = q + 23"
    using xl xu by (intro binade_unique[OF x0]) (simp_all add: add.commute)
  then have qq: "max (binade x) (- 126) - 23 = q" using q by simp
  have "x / pow2 q - real_of_int n < 1 / 2" using hi pow2_pos[of q] by (simp add: field_simps)
  moreover have "- (1 / 2) < x / pow2 q - real_of_int n"
    using lo pow2_pos[of q] by (simp add: field_simps)
  ultimately have "\<bar>x / pow2 q - real_of_int n\<bar> < 1 / 2" by linarith
  then have r: "round_even (x / pow2 q) = n" by (rule round_even_near)
  have "real_of_int n < real_of_int (2 ^ 24)" using n(2) by (simp only: of_int_less_iff)
  then have "real_of_int n * pow2 q < 2 ^ 24 * pow2 q" using pow2_pos[of q] by simp
  also have "\<dots> = pow2 (q + 24)" by (simp add: pow2_add pow2_24)
  also have "\<dots> \<le> pow2 128" using q by (simp add: pow2_le_iff)
  also have "\<dots> = 2 ^ 128" by (simp add: pow2_def)
  finally have "\<not> 2 ^ 128 \<le> real_of_int n * pow2 q" by simp
  then show ?thesis by (simp add: round32_pos_def Let_def qq r)
qed

lemma sqrtf_nearest:
  assumes n: "2 ^ 23 \<le> n" "n < 2 ^ 24" and q: "- 149 \<le> q" "q \<le> 104"
    and lo: "((real_of_int n - 1 / 2) * pow2 q)\<^sup>2 < a"
    and hi: "a < ((real_of_int n + 1 / 2) * pow2 q)\<^sup>2"
    and b: "(2 ^ 23 * pow2 q)\<^sup>2 \<le> a"
  shows "sqrtf (Finite a) = Finite (real_of_int n * pow2 q)"
proof -
  have a0: "0 < a" using b pow2_pos[of q] by (smt (verit) zero_less_power mult_pos_pos)
  have "0 \<le> real_of_int n - 1 / 2" using n(1) by simp
  have l: "(real_of_int n - 1 / 2) * pow2 q < sqrt a" using lo by (rule real_less_rsqrt)
  have "0 < (real_of_int n + 1 / 2) * pow2 q" using n(1) pow2_pos[of q] by (simp add: mult_pos_pos)
  then have h: "sqrt a < (real_of_int n + 1 / 2) * pow2 q" using hi by (intro real_less_lsqrt) simp_all
  have bb: "2 ^ 23 * pow2 q \<le> sqrt a" using b by (rule real_le_rsqrt)
  have s0: "0 < sqrt a" using a0 by simp
  have "round32_pos (sqrt a) = Finite (real_of_int n * pow2 q)"
    by (rule round32_pos_nearest[OF n q l h bb])
  then show ?thesis using a0 s0 by (simp add: round32_def)
qed

subsection \<open>Rounding keeps a number between two powers of two\<close>




subsection \<open>Values that a float holds\<close>

lemma representable_round32: "representable (round32 x)"
  using round32_idem[of x] by (cases "round32 x") simp_all

lemma representable_float_of_int: "representable (float_of_int n)"
  by (simp add: float_of_int_def representable_round32)

lemma representable_fadd: "representable (fadd a b)"
  by (cases a; cases b) (simp_all add: representable_round32)

lemma fadd_zero_left: "representable a \<Longrightarrow> fadd (Finite 0) a = a"
  by (cases a) simp_all

lemma fadd_zero_right: "representable a \<Longrightarrow> fadd a (Finite 0) = a"
  by (cases a) simp_all

lemma fmul_one_right: "representable a \<Longrightarrow> fmul a (Finite 1) = a"
  by (cases a) (simp_all add: inf_of_sign_def)

lemma fmul_zero_left: "fmul (Finite 0) (Finite s) = Finite 0"
  by (simp add: round32_def)

lemma fmul_minus_one_left: "representable a \<Longrightarrow> fmul (Finite (- 1)) a = fneg a"
  by (cases a) (simp_all add: inf_of_sign_def round32_minus)

lemma float_of_int_small: "\<bar>n\<bar> \<le> 2 ^ 24 \<Longrightarrow> float_of_int n = Finite (real_of_int n)"
  by (simp add: float_of_int_def round32_of_int)

lemma float_of_int_0: "float_of_int 0 = Finite 0"
  using float_of_int_small[of 0] by simp

lemma float_of_int_minus_1: "float_of_int (- 1) = Finite (- 1)"
  using float_of_int_small[of "- 1"] by simp

lemma float_of_int_32: "float_of_int 32 = Finite 32"
  using float_of_int_small[of 32] by simp

lemma float_of_int_4: "float_of_int 4 = Finite 4"
  using float_of_int_small[of 4] by simp

section \<open>Proofs: the atlas packer\<close>

subsection \<open>The parts of a call that returns\<close>

lemma GenImageFontAtlas_parts:
  assumes "GenImageFontAtlas m pack cs count fontSize padding packMethod = Some r"
  shows "\<exists>A s rs' px'.
     requiredArea_loop cs padding 0 (chars_or_default count) (Finite 0) = Some A \<and>
     imageSize_of m (guessSize_of A) = Some s \<and>
     (if packMethod = 0
      then row_pack cs s s fontSize padding 0 (chars_or_default count) padding padding
             (replicate (chars_or_default count) None, replicate (nat (s * s)) 0)
      else if packMethod = 1
      then (case skyline_rects cs padding 0 (chars_or_default count) of None \<Rightarrow> None
            | Some rects \<Rightarrow>
               skyline_recs cs (pack s s rects) s padding 0 (chars_or_default count)
                 (replicate (chars_or_default count) None, replicate (nat (s * s)) 0))
      else Some (replicate (chars_or_default count) None, replicate (nat (s * s)) 0))
       = Some (rs', px') \<and>
     r = \<lparr>atlas = \<lparr>img_data = concat (map (\<lambda>p. [255, p]) px'), img_width = s, img_height = s,
                    img_mipmaps = 1, img_format = UNCOMPRESSED_GRAY_ALPHA\<rparr>,
          charRecs = rs'\<rparr>"
proof -
  define n where "n = chars_or_default count"
  define rs where "rs = replicate n (None :: Rectangle option)"
  obtain A where A: "requiredArea_loop cs padding 0 n (Finite 0) = Some A"
    using assms unfolding GenImageFontAtlas_def Let_def n_def
    by (cases "requiredArea_loop cs padding 0 (chars_or_default count) (Finite 0)") simp_all
  obtain s where s: "imageSize_of m (guessSize_of A) = Some s"
    using assms A unfolding GenImageFontAtlas_def Let_def n_def
    by (cases "imageSize_of m (guessSize_of A)") simp_all
  define px where "px = replicate (nat (s * s)) (0 :: byte)"
  define branch where "branch =
     (if packMethod = 0
      then row_pack cs s s fontSize padding 0 n padding padding (rs, px)
      else if packMethod = 1
      then (case skyline_rects cs padding 0 n of None \<Rightarrow> None
            | Some rects \<Rightarrow> skyline_recs cs (pack s s rects) s padding 0 n (rs, px))
      else Some (rs, px))"
  have G: "GenImageFontAtlas m pack cs count fontSize padding packMethod =
      (case branch of None \<Rightarrow> None
       | Some (rs', px') \<Rightarrow>
          Some \<lparr>atlas = \<lparr>img_data = concat (map (\<lambda>p. [255, p]) px'), img_width = s,
                             img_height = s, img_mipmaps = 1,
                             img_format = UNCOMPRESSED_GRAY_ALPHA\<rparr>,
                charRecs = rs'\<rparr>)"
    unfolding GenImageFontAtlas_def Let_def branch_def rs_def px_def n_def
    by (simp only: A[unfolded n_def] s option.case)
  obtain rs' px' where b: "branch = Some (rs', px')"
    using assms unfolding G by (cases branch) auto
  have "r = \<lparr>atlas = \<lparr>img_data = concat (map (\<lambda>p. [255, p]) px'), img_width = s, img_height = s,
                    img_mipmaps = 1, img_format = UNCOMPRESSED_GRAY_ALPHA\<rparr>,
          charRecs = rs'\<rparr>"
    using assms unfolding G b by simp
  then show ?thesis
    using A s b unfolding branch_def rs_def px_def n_def by blast
qed

subsection \<open>The guessed size\<close>


lemma sqrtf_128: "sqrtf (Finite 128) = Finite (11863283 / 1048576)"
proof -
  have "sqrtf (Finite 128) = Finite (real_of_int 11863283 * pow2 (- 20))"
    by (rule sqrtf_nearest) (simp_all add: pow2_def power2_eq_square)
  then show ?thesis by (simp add: pow2_def)
qed

lemma sqrtf_2481837: "sqrtf (Finite 2481837) = Finite (806597 / 512)"
proof -
  have "sqrtf (Finite 2481837) = Finite (real_of_int 12905552 * pow2 (- 13))"
    by (rule sqrtf_nearest) (simp_all add: pow2_def power2_eq_square)
  then show ?thesis by (simp add: pow2_def)
qed


lemma guess_2481837: "guessSize_of (Finite 2481837) = Finite 2048"
proof -
  have "fmul (Finite (806597 / 512)) (round32 1.3) = Finite 2048" by code_simp
  then show ?thesis by (simp only: guessSize_of_def sqrtf_2481837)
qed

lemma imageSize_2481837: "imageSize_of example_libm (guessSize_of (Finite 2481837)) = Some 2048"
proof -
  have "imageSize_of example_libm (Finite 2048) = Some 2048" by code_simp
  then show ?thesis by (simp only: guess_2481837)
qed

lemma guess_128: "guessSize_of (Finite 128) = Finite (15422267 / 1048576)"
proof -
  have "fmul (Finite (11863283 / 1048576)) (round32 1.3) = Finite (15422267 / 1048576)"
    by code_simp
  then show ?thesis by (simp only: guessSize_of_def sqrtf_128)
qed









subsection \<open>The rectangles\<close>

lemma row_pack_result:
  assumes "row_pack cs aw ah fs p i n offX offY (rs, px) = Some (rs', px')"
    and "i + n \<le> length rs"
  shows "length rs' = length rs \<and> (\<forall>j<i. rs' ! j = rs ! j) \<and>
     (n = 0 \<or> (\<exists>k. i < k \<and> k \<le> i + n \<and>
        (\<forall>j. i \<le> j \<and> j < k \<longrightarrow> recorded (cs ! j) (rs' ! j)) \<and>
        (\<forall>j. k \<le> j \<and> j < length rs \<longrightarrow> rs' ! j = rs ! j) \<and>
        (k < i + n \<longrightarrow> row_end aw ah fs p (cs ! (k - 1)) (rs' ! (k - 1)))))"
  using assms
proof (induction n arbitrary: i offX offY rs px)
  case 0
  then show ?case by simp
next
  case (Suc n)
  have il: "i < length rs" using Suc.prems(2) by simp
  obtain c where c: "array_get cs i = Some c"
    using Suc.prems(1) by (auto split: option.splits)
  have ci: "cs ! i = c" using c by (auto simp: array_get_def split: if_splits)
  define w where "w = img_width (charImage c)"
  define h where "h = img_height (charImage c)"
  obtain px1 where px1: "copy_glyph px aw (charImage c) offX offY 0 (nat h) = Some px1"
    using Suc.prems(1) c by (auto simp: Let_def h_def split: option.splits)
  define q where "q = \<lparr>rec_x = float_of_int offX, rec_y = float_of_int offY,
      rec_width = float_of_int w, rec_height = float_of_int h\<rparr>"
  define rs1 where "rs1 = rs[i := Some q]"
  have rq: "recorded (cs ! i) (Some q)" by (simp add: recorded_def q_def ci w_def h_def)
  have l1: "length rs1 = length rs" by (simp add: rs1_def)
  have at_i: "rs1 ! i = Some q" using il by (simp add: rs1_def)
  have other: "j \<noteq> i \<Longrightarrow> rs1 ! j = rs ! j" for j by (simp add: rs1_def)
  define offX' where "offX' = offX + (w + 2 * p)"
  define offY' where "offY' = offY + (fs + 2 * p)"
  have eq: "row_pack cs aw ah fs p i (Suc n) offX offY (rs, px) =
      (if offX' \<ge> aw - w - p
       then (if offY' > ah - fs - p then Some (rs1, px1)
             else row_pack cs aw ah fs p (Suc i) n p offY' (rs1, px1))
       else row_pack cs aw ah fs p (Suc i) n offX' offY (rs1, px1))"
    unfolding w_def h_def q_def rs1_def offX'_def offY'_def
    by (simp only: row_pack.simps c px1[unfolded h_def] option.case Let_def)
  note res = Suc.prems(1)[unfolded eq]
  consider (stop) "offX' \<ge> aw - w - p" "offY' > ah - fs - p"
    | (newrow) "offX' \<ge> aw - w - p" "\<not> offY' > ah - fs - p"
    | (samerow) "\<not> offX' \<ge> aw - w - p"
    by blast
  then show ?case
  proof cases
    case stop
    have r: "rs' = rs1" using res stop by simp
    have e: "row_end aw ah fs p (cs ! i) (rs1 ! i)"
      unfolding row_end_def at_i q_def ci w_def[symmetric] h_def[symmetric]
      using stop by (intro exI[of _ offX] exI[of _ offY]) (simp add: offX'_def offY'_def)
    have "i < Suc i \<and> Suc i \<le> i + Suc n \<and>
        (\<forall>j. i \<le> j \<and> j < Suc i \<longrightarrow> recorded (cs ! j) (rs1 ! j)) \<and>
        (\<forall>j. Suc i \<le> j \<and> j < length rs \<longrightarrow> rs1 ! j = rs ! j) \<and>
        (Suc i < i + Suc n \<longrightarrow> row_end aw ah fs p (cs ! (Suc i - 1)) (rs1 ! (Suc i - 1)))"
      using rq at_i other e by (auto simp: le_less_Suc_eq)
    then show ?thesis unfolding r using l1 other by (intro conjI disjI2 exI[of _ "Suc i"]) auto
  next
    case newrow
    have step: "row_pack cs aw ah fs p (Suc i) n p offY' (rs1, px1) = Some (rs', px')"
      using res newrow by simp
    have le: "Suc i + n \<le> length rs1" using Suc.prems(2) l1 by simp
    note IH = Suc.IH[OF step le]
    show ?thesis
    proof (cases "n = 0")
      case True
      then have "rs' = rs1" using step by simp
      then show ?thesis using True l1 other rq at_i
        by (intro conjI disjI2 exI[of _ "Suc i"]) (auto simp: le_less_Suc_eq)
    next
      case False
      then obtain k where k: "Suc i < k" "k \<le> Suc i + n"
        "\<forall>j. Suc i \<le> j \<and> j < k \<longrightarrow> recorded (cs ! j) (rs' ! j)"
        "\<forall>j. k \<le> j \<and> j < length rs1 \<longrightarrow> rs' ! j = rs1 ! j"
        "k < Suc i + n \<longrightarrow> row_end aw ah fs p (cs ! (k - 1)) (rs' ! (k - 1))"
        using IH by blast
      have keep: "\<forall>j<Suc i. rs' ! j = rs1 ! j" using IH by blast
      have ri: "rs' ! i = Some q" using keep at_i by simp
      have a: "\<forall>j. i \<le> j \<and> j < k \<longrightarrow> recorded (cs ! j) (rs' ! j)"
      proof (intro allI impI)
        fix j
        assume j: "i \<le> j \<and> j < k"
        show "recorded (cs ! j) (rs' ! j)"
        proof (cases "j = i")
          case True
          then show ?thesis using ri rq by simp
        next
          case False
          then have "Suc i \<le> j" using j by simp
          then show ?thesis using k(3) j by simp
        qed
      qed
      have b: "\<forall>j. k \<le> j \<and> j < length rs \<longrightarrow> rs' ! j = rs ! j"
        using k(1,4) l1 other by auto
      have f: "\<forall>j<i. rs' ! j = rs ! j" using keep other by auto
      show ?thesis using IH l1 f a b k(1,2,5)
        by (intro conjI disjI2 exI[of _ k]) auto
    qed
  next
    case samerow
    have step: "row_pack cs aw ah fs p (Suc i) n offX' offY (rs1, px1) = Some (rs', px')"
      using res samerow by simp
    have le: "Suc i + n \<le> length rs1" using Suc.prems(2) l1 by simp
    note IH = Suc.IH[OF step le]
    show ?thesis
    proof (cases "n = 0")
      case True
      then have "rs' = rs1" using step by simp
      then show ?thesis using True l1 other rq at_i
        by (intro conjI disjI2 exI[of _ "Suc i"]) (auto simp: le_less_Suc_eq)
    next
      case False
      then obtain k where k: "Suc i < k" "k \<le> Suc i + n"
        "\<forall>j. Suc i \<le> j \<and> j < k \<longrightarrow> recorded (cs ! j) (rs' ! j)"
        "\<forall>j. k \<le> j \<and> j < length rs1 \<longrightarrow> rs' ! j = rs1 ! j"
        "k < Suc i + n \<longrightarrow> row_end aw ah fs p (cs ! (k - 1)) (rs' ! (k - 1))"
        using IH by blast
      have keep: "\<forall>j<Suc i. rs' ! j = rs1 ! j" using IH by blast
      have ri: "rs' ! i = Some q" using keep at_i by simp
      have a: "\<forall>j. i \<le> j \<and> j < k \<longrightarrow> recorded (cs ! j) (rs' ! j)"
      proof (intro allI impI)
        fix j
        assume j: "i \<le> j \<and> j < k"
        show "recorded (cs ! j) (rs' ! j)"
        proof (cases "j = i")
          case True
          then show ?thesis using ri rq by simp
        next
          case False
          then have "Suc i \<le> j" using j by simp
          then show ?thesis using k(3) j by simp
        qed
      qed
      have b: "\<forall>j. k \<le> j \<and> j < length rs \<longrightarrow> rs' ! j = rs ! j"
        using k(1,4) l1 other by auto
      have f: "\<forall>j<i. rs' ! j = rs ! j" using keep other by auto
      show ?thesis using IH l1 f a b k(1,2,5)
        by (intro conjI disjI2 exI[of _ k]) auto
    qed
  qed
qed

lemma skyline_recs_result:
  assumes "skyline_recs cs rects aw p i n (rs, px) = Some (rs', px')"
    and "i + n \<le> length rs"
  shows "length rs' = length rs \<and> (\<forall>j<i. rs' ! j = rs ! j) \<and>
     (\<forall>j. i \<le> j \<and> j < i + n \<longrightarrow> recorded (cs ! j) (rs' ! j))"
  using assms
proof (induction n arbitrary: i rs px)
  case 0
  then show ?case by auto
next
  case (Suc n)
  have il: "i < length rs" using Suc.prems(2) by simp
  obtain r where r: "array_get rects i = Some r"
    using Suc.prems(1) by (auto split: option.splits)
  obtain c where c: "array_get cs i = Some c"
    using Suc.prems(1) r by (auto split: option.splits)
  have ci: "cs ! i = c" using c by (auto simp: array_get_def split: if_splits)
  define q where "q = \<lparr>rec_x = fadd (float_of_int (rect_x r)) (float_of_int p),
      rec_y = fadd (float_of_int (rect_y r)) (float_of_int p),
      rec_width = float_of_int (img_width (charImage c)),
      rec_height = float_of_int (img_height (charImage c))\<rparr>"
  define rs1 where "rs1 = rs[i := Some q]"
  obtain px1 where step: "skyline_recs cs rects aw p (Suc i) n (rs1, px1) = Some (rs', px')"
    using Suc.prems(1)
    by (auto simp: r c Let_def q_def[symmetric] rs1_def[symmetric] split: option.splits)
  have rq: "recorded (cs ! i) (Some q)" by (simp add: recorded_def q_def ci)
  have l1: "length rs1 = length rs" by (simp add: rs1_def)
  have at_i: "rs1 ! i = Some q" using il by (simp add: rs1_def)
  have other: "j \<noteq> i \<Longrightarrow> rs1 ! j = rs ! j" for j by (simp add: rs1_def)
  have le: "Suc i + n \<le> length rs1" using Suc.prems(2) l1 by simp
  note IH = Suc.IH[OF step le]
  have keep: "\<forall>j<Suc i. rs' ! j = rs1 ! j" using IH by blast
  have ri: "rs' ! i = Some q" using keep at_i by simp
  have a: "\<forall>j. i \<le> j \<and> j < i + Suc n \<longrightarrow> recorded (cs ! j) (rs' ! j)"
  proof (intro allI impI)
    fix j
    assume j: "i \<le> j \<and> j < i + Suc n"
    show "recorded (cs ! j) (rs' ! j)"
    proof (cases "j = i")
      case True
      then show ?thesis using ri rq by simp
    next
      case False
      then have "Suc i \<le> j \<and> j < Suc i + n" using j by simp
      then show ?thesis using IH by blast
    qed
  qed
  have f: "\<forall>j<i. rs' ! j = rs ! j" using keep other by auto
  show ?case using IH l1 f a by auto
qed

text \<open>
  Claim C8, as amended. When \<open>GenImageFontAtlas\<close> returns, every rectangle that it has
  written has the width and the height of the bitmap of its glyph, converted to
  \<open>float\<close> (exactly these numbers up to \<open>2\<^sup>2\<^sup>4\<close>), without padding. The Skyline algorithm
  writes the rectangle of every glyph. The basic algorithm writes the rectangles of the
  first \<open>k\<close> glyphs, \<open>k \<ge> 1\<close>, and of no glyph after them; when \<open>k\<close> is less than
  the number of glyphs, glyph \<open>k - 1\<close> was the last of its row and the next row did not
  fit the atlas.
\<close>

theorem GenImageFontAtlas_rectangles:
  assumes "GenImageFontAtlas m pack cs count fontSize padding packMethod = Some r"
  shows "length (charRecs r) = chars_or_default count \<and>
     (\<forall>j<chars_or_default count. \<forall>q. charRecs r ! j = Some q \<longrightarrow>
        rec_width q = float_of_int (img_width (charImage (cs ! j))) \<and>
        rec_height q = float_of_int (img_height (charImage (cs ! j)))) \<and>
     (\<forall>w. \<bar>w\<bar> \<le> 2 ^ 24 \<longrightarrow> float_of_int w = Finite (real_of_int w)) \<and>
     (packMethod = 1 \<longrightarrow> (\<forall>j<chars_or_default count. charRecs r ! j \<noteq> None)) \<and>
     (packMethod = 0 \<longrightarrow>
        (\<exists>k. 0 < k \<and> k \<le> chars_or_default count \<and>
           (\<forall>j<chars_or_default count. (charRecs r ! j \<noteq> None) = (j < k)) \<and>
           (k < chars_or_default count \<longrightarrow>
              row_end (img_width (atlas r)) (img_height (atlas r)) fontSize padding
                (cs ! (k - 1)) (charRecs r ! (k - 1)))))"
proof -
  define n where "n = chars_or_default count"
  have n0: "0 < n" by (simp add: n_def chars_or_default_pos)
  obtain A s rs' px' where p:
     "(if packMethod = 0
      then row_pack cs s s fontSize padding 0 n padding padding
             (replicate n None, replicate (nat (s * s)) 0)
      else if packMethod = 1
      then (case skyline_rects cs padding 0 n of None \<Rightarrow> None
            | Some rects \<Rightarrow>
               skyline_recs cs (pack s s rects) s padding 0 n
                 (replicate n None, replicate (nat (s * s)) 0))
      else Some (replicate n None, replicate (nat (s * s)) 0))
       = Some (rs', px')"
     "r = \<lparr>atlas = \<lparr>img_data = concat (map (\<lambda>p. [255, p]) px'), img_width = s, img_height = s,
                    img_mipmaps = 1, img_format = UNCOMPRESSED_GRAY_ALPHA\<rparr>,
          charRecs = rs'\<rparr>"
    using GenImageFontAtlas_parts[OF assms] unfolding n_def by blast
  have cr: "charRecs r = rs'" "img_width (atlas r) = s" "img_height (atlas r) = s"
    by (simp_all add: p(2))
  have "length rs' = n \<and>
     (\<forall>j<n. \<forall>q. rs' ! j = Some q \<longrightarrow>
        rec_width q = float_of_int (img_width (charImage (cs ! j))) \<and>
        rec_height q = float_of_int (img_height (charImage (cs ! j)))) \<and>
     (packMethod = 1 \<longrightarrow> (\<forall>j<n. rs' ! j \<noteq> None)) \<and>
     (packMethod = 0 \<longrightarrow>
        (\<exists>k. 0 < k \<and> k \<le> n \<and> (\<forall>j<n. (rs' ! j \<noteq> None) = (j < k)) \<and>
           (k < n \<longrightarrow> row_end s s fontSize padding (cs ! (k - 1)) (rs' ! (k - 1)))))"
  proof -
    consider (row) "packMethod = 0" | (sky) "packMethod = 1"
      | (other) "packMethod \<noteq> 0" "packMethod \<noteq> 1"
      by blast
    then show ?thesis
    proof cases
      case row
      then have rp: "row_pack cs s s fontSize padding 0 n padding padding
             (replicate n None, replicate (nat (s * s)) 0) = Some (rs', px')"
        using p(1) by simp
      have le: "0 + n \<le> length (replicate n (None :: Rectangle option))" by simp
      note R = row_pack_result[OF rp le]
      obtain k where k: "0 < k" "k \<le> n"
        "\<forall>j. 0 \<le> j \<and> j < k \<longrightarrow> recorded (cs ! j) (rs' ! j)"
        "\<forall>j. k \<le> j \<and> j < n \<longrightarrow> rs' ! j = None"
        "k < n \<longrightarrow> row_end s s fontSize padding (cs ! (k - 1)) (rs' ! (k - 1))"
        using R n0 by auto
      have len: "length rs' = n" using R by simp
      have some: "(rs' ! j \<noteq> None) = (j < k)" if "j < n" for j
      proof (cases "j < k")
        case True
        then have "recorded (cs ! j) (rs' ! j)" using k(3) by simp
        then show ?thesis using True by (auto simp: recorded_def)
      next
        case False
        then show ?thesis using k(4) that by simp
      qed
      have sized: "rec_width q = float_of_int (img_width (charImage (cs ! j))) \<and>
                   rec_height q = float_of_int (img_height (charImage (cs ! j)))"
        if "j < n" "rs' ! j = Some q" for j q
      proof -
        have "j < k" using some[OF that(1)] that(2) by simp
        then have "recorded (cs ! j) (rs' ! j)" using k(3) by simp
        then show ?thesis using that(2) by (simp add: recorded_def)
      qed
      have "\<exists>k. 0 < k \<and> k \<le> n \<and> (\<forall>j<n. (rs' ! j \<noteq> None) = (j < k)) \<and>
           (k < n \<longrightarrow> row_end s s fontSize padding (cs ! (k - 1)) (rs' ! (k - 1)))"
        using k(1,2,5) some by (intro exI[of _ k]) simp
      then show ?thesis using row len sized by simp
    next
      case sky
      then obtain rects where rects: "skyline_rects cs padding 0 n = Some rects"
        and sr: "skyline_recs cs (pack s s rects) s padding 0 n
                 (replicate n None, replicate (nat (s * s)) 0) = Some (rs', px')"
        using p(1) by (auto split: option.splits)
      have le: "0 + n \<le> length (replicate n (None :: Rectangle option))" by simp
      note R = skyline_recs_result[OF sr le]
      have len: "length rs' = n" using R by simp
      have all: "recorded (cs ! j) (rs' ! j)" if "j < n" for j using R that by simp
      have some: "rs' ! j \<noteq> None" if "j < n" for j using all[OF that] by (auto simp: recorded_def)
      have sized: "rec_width q = float_of_int (img_width (charImage (cs ! j))) \<and>
                   rec_height q = float_of_int (img_height (charImage (cs ! j)))"
        if "j < n" "rs' ! j = Some q" for j q
        using all[OF that(1)] that(2) by (simp add: recorded_def)
      show ?thesis using sky len some sized by simp
    next
      case other
      then have "rs' = replicate n None" using p(1) by simp
      then show ?thesis using other by simp
    qed
  qed
  moreover have "\<forall>w. \<bar>w\<bar> \<le> 2 ^ 24 \<longrightarrow> float_of_int w = Finite (real_of_int w)"
    using float_of_int_small by simp
  ultimately show ?thesis unfolding cr n_def[symmetric] by simp
qed

subsection \<open>The two glyph lists\<close>


lemma atlas_8x8_rows:
  "\<exists>px. GenImageFontAtlas example_libm idle_packer two_glyphs_8x8 2 9 0 0 =
     Some \<lparr>atlas = \<lparr>img_data = px, img_width = 16, img_height = 16, img_mipmaps = 1,
                      img_format = UNCOMPRESSED_GRAY_ALPHA\<rparr>,
           charRecs = [Some \<lparr>rec_x = Finite 0, rec_y = Finite 0, rec_width = Finite 8,
                               rec_height = Finite 8\<rparr>, None]\<rparr>"
proof -
  have a: "requiredArea_loop two_glyphs_8x8 0 0 (chars_or_default 2) (Finite 0) = Some (Finite 128)"
    by code_simp
  have s: "imageSize_of example_libm (Finite (15422267 / 1048576)) = Some 16" by code_simp
  have "map_option fst (row_pack two_glyphs_8x8 16 16 9 0 0 (chars_or_default 2) 0 0
          (replicate (chars_or_default 2) None, replicate (nat (16 * 16)) 0))
        = Some [Some \<lparr>rec_x = Finite 0, rec_y = Finite 0, rec_width = Finite 8,
                        rec_height = Finite 8\<rparr>, None]"
    by code_simp
  then obtain px where rp: "row_pack two_glyphs_8x8 16 16 9 0 0 (chars_or_default 2) 0 0
          (replicate (chars_or_default 2) None, replicate (nat (16 * 16)) 0)
        = Some ([Some \<lparr>rec_x = Finite 0, rec_y = Finite 0, rec_width = Finite 8,
                        rec_height = Finite 8\<rparr>, None], px)"
    by auto
  show ?thesis
    unfolding GenImageFontAtlas_def Let_def
    by (simp only: a s guess_128 rp option.case prod.case simp_thms if_True) blast
qed

lemma atlas_8x8_skyline:
  "\<exists>px. GenImageFontAtlas example_libm shelf_packer two_glyphs_8x8 2 9 0 1 =
     Some \<lparr>atlas = \<lparr>img_data = px, img_width = 16, img_height = 16, img_mipmaps = 1,
                      img_format = UNCOMPRESSED_GRAY_ALPHA\<rparr>,
           charRecs = [Some \<lparr>rec_x = Finite 0, rec_y = Finite 0, rec_width = Finite 8,
                               rec_height = Finite 8\<rparr>,
                       Some \<lparr>rec_x = Finite 8, rec_y = Finite 0, rec_width = Finite 8,
                               rec_height = Finite 8\<rparr>]\<rparr>"
proof -
  have a: "requiredArea_loop two_glyphs_8x8 0 0 (chars_or_default 2) (Finite 0) = Some (Finite 128)"
    by code_simp
  have s: "imageSize_of example_libm (Finite (15422267 / 1048576)) = Some 16" by code_simp
  have "map_option fst
          (case skyline_rects two_glyphs_8x8 0 0 (chars_or_default 2) of None \<Rightarrow> None
           | Some rects \<Rightarrow>
              skyline_recs two_glyphs_8x8 (shelf_packer 16 16 rects) 16 0 0 (chars_or_default 2)
                (replicate (chars_or_default 2) None, replicate (nat (16 * 16)) 0))
        = Some [Some \<lparr>rec_x = Finite 0, rec_y = Finite 0, rec_width = Finite 8,
                        rec_height = Finite 8\<rparr>,
                Some \<lparr>rec_x = Finite 8, rec_y = Finite 0, rec_width = Finite 8,
                        rec_height = Finite 8\<rparr>]"
    by code_simp
  then obtain px where rp: "(case skyline_rects two_glyphs_8x8 0 0 (chars_or_default 2) of None \<Rightarrow> None
           | Some rects \<Rightarrow>
              skyline_recs two_glyphs_8x8 (shelf_packer 16 16 rects) 16 0 0 (chars_or_default 2)
                (replicate (chars_or_default 2) None, replicate (nat (16 * 16)) 0))
        = Some ([Some \<lparr>rec_x = Finite 0, rec_y = Finite 0, rec_width = Finite 8,
                        rec_height = Finite 8\<rparr>,
                Some \<lparr>rec_x = Finite 8, rec_y = Finite 0, rec_width = Finite 8,
                        rec_height = Finite 8\<rparr>], px)"
    by auto
  have one: "((1::int) = 0) = False" by simp
  show ?thesis
    unfolding GenImageFontAtlas_def Let_def
    by (simp only: a s guess_128 rp option.case prod.case simp_thms if_True if_False one) blast
qed



text \<open>Two glyphs of 8 by 8 pixels at font size 9 without padding, under the Skyline
  algorithm with the packer that fills one row, and under the basic algorithm.\<close>

theorem GenImageFontAtlas_rectangles_witness:
  "(\<exists>r. GenImageFontAtlas example_libm shelf_packer two_glyphs_8x8 2 9 0 1 = Some r \<and>
      length (charRecs r) = 2 \<and> recorded (two_glyphs_8x8 ! 0) (charRecs r ! 0) \<and>
      recorded (two_glyphs_8x8 ! 1) (charRecs r ! 1)) \<and>
   (\<exists>r. GenImageFontAtlas example_libm idle_packer two_glyphs_8x8 2 9 0 0 = Some r \<and>
      length (charRecs r) = 2 \<and> recorded (two_glyphs_8x8 ! 0) (charRecs r ! 0) \<and>
      charRecs r ! 1 = None \<and>
      row_end 16 16 9 0 (two_glyphs_8x8 ! 0) (charRecs r ! 0)) \<and>
   float_of_int 8 = Finite 8"
proof -
  have n: "chars_or_default 2 = 2" by (simp add: chars_or_default_def)
  obtain r1 where r1: "GenImageFontAtlas example_libm shelf_packer two_glyphs_8x8 2 9 0 1 = Some r1"
    using atlas_8x8_skyline by blast
  note t1 = GenImageFontAtlas_rectangles[OF r1, unfolded n]
  have s1: "recorded (two_glyphs_8x8 ! j) (charRecs r1 ! j)" if "j < 2" for j
  proof -
    have "charRecs r1 ! j \<noteq> None" using t1 that by blast
    then obtain q where q: "charRecs r1 ! j = Some q" by (cases "charRecs r1 ! j") auto
    have "rec_width q = float_of_int (img_width (charImage (two_glyphs_8x8 ! j))) \<and>
          rec_height q = float_of_int (img_height (charImage (two_glyphs_8x8 ! j)))"
      using t1 that q by blast
    then show ?thesis using q by (simp add: recorded_def)
  qed
  have w1: "length (charRecs r1) = 2 \<and> recorded (two_glyphs_8x8 ! 0) (charRecs r1 ! 0) \<and>
      recorded (two_glyphs_8x8 ! 1) (charRecs r1 ! 1)"
    using t1 s1[of 0] s1[of 1] by simp
  obtain r0 where r0: "GenImageFontAtlas example_libm idle_packer two_glyphs_8x8 2 9 0 0 = Some r0"
    and c0: "charRecs r0 ! 1 = None" and w0: "img_width (atlas r0) = 16" "img_height (atlas r0) = 16"
    using atlas_8x8_rows by auto
  note t0 = GenImageFontAtlas_rectangles[OF r0, unfolded n]
  obtain k where k: "0 < k" "k \<le> 2" "\<forall>j<2. (charRecs r0 ! j \<noteq> None) = (j < k)"
    "k < 2 \<longrightarrow> row_end (img_width (atlas r0)) (img_height (atlas r0)) 9 0
        (two_glyphs_8x8 ! (k - 1)) (charRecs r0 ! (k - 1))"
    using t0 by auto
  have "(charRecs r0 ! 1 \<noteq> None) = (1 < k)" using k(3)[rule_format, of 1] by simp
  then have "\<not> 1 < k" using c0 by simp
  then have k1: "k = 1" using k(1) by simp
  have e: "row_end 16 16 9 0 (two_glyphs_8x8 ! 0) (charRecs r0 ! 0)"
    using k(4) unfolding k1 w0 by simp
  then have "recorded (two_glyphs_8x8 ! 0) (charRecs r0 ! 0)"
    by (auto simp: row_end_def recorded_def)
  then have w2: "length (charRecs r0) = 2 \<and> recorded (two_glyphs_8x8 ! 0) (charRecs r0 ! 0) \<and>
      charRecs r0 ! 1 = None \<and> row_end 16 16 9 0 (two_glyphs_8x8 ! 0) (charRecs r0 ! 0)"
    using t0 c0 e by simp
  have "float_of_int 8 = Finite 8" using t0 by simp
  then show ?thesis using r1 w1 r0 w2 by blast
qed

text \<open>
  Claim C8 as stated fails under the basic algorithm for two glyphs of 8 by 8 pixels at
  font size 9 without padding: the atlas has side 16, the first glyph fills the row, the
  next row would start at 9 and \<open>9 > 16 - 9\<close>, so the loop stops and the rectangle of the
  second glyph is never written.
\<close>

theorem GenImageFontAtlas_rectangles_counterexample:
  "\<exists>r. GenImageFontAtlas example_libm idle_packer two_glyphs_8x8 2 9 0 0 = Some r \<and>
     charRecs r = [Some \<lparr>rec_x = Finite 0, rec_y = Finite 0, rec_width = Finite 8,
                          rec_height = Finite 8\<rparr>, None]"
  using atlas_8x8_rows by auto

section \<open>Proofs: text layout\<close>

subsection \<open>Measurement of two lines\<close>

lemma measure_advance_representable:
  "measure_advance font index = Some w \<Longrightarrow> representable w"
  by (auto simp: measure_advance_def representable_float_of_int representable_fadd
      split: option.splits if_splits)

lemma glyph_width_representable: "glyph_width font codepoint = Some w \<Longrightarrow> representable w"
  by (auto simp: glyph_width_def measure_advance_representable split: option.splits)

lemma MeasureTextEx_body_glyph:
  assumes "GetNextCodepoint text i = Some (letter, n)" "letter \<noteq> 0x0a"
    "glyph_width font letter = Some w"
  shows "MeasureTextEx_body font text i st =
    Some (i + ((if letter = 0x3f then 1 else n) - 1),
          st\<lparr>lenCounter := lenCounter st + 1, textWidth := fadd (textWidth st) w,
             tempLen := (if tempLen st < lenCounter st + 1 then lenCounter st + 1 else tempLen st)\<rparr>)"
  using assms
  by (auto simp: MeasureTextEx_body_def measure_step_def glyph_width_def Let_def
      split: option.splits)

lemma MeasureTextEx_body_newline:
  assumes "GetNextCodepoint text i = Some (0x0a, n)" "GetGlyphIndex font 0x0a = Some k"
  shows "MeasureTextEx_body font text i st =
    Some (i + (n - 1),
          st\<lparr>tempTextWidth := fmax (tempTextWidth st) (textWidth st),
             lenCounter := 0, textWidth := Finite 0,
             textHeight := fadd (textHeight st) (fmul (float_of_int (baseSize font)) (Finite 1.5)),
             tempLen := (if tempLen st < 0 then 0 else tempLen st)\<rparr>)"
  using assms
  by (simp add: MeasureTextEx_body_def measure_step_def Let_def fmax_def)

lemma MeasureTextEx_body_height:
  assumes "MeasureTextEx_body font text i st = Some (i', st')"
  shows "\<exists>letter n. GetNextCodepoint text i = Some (letter, n) \<and>
          textHeight st' =
            (if letter = 0x0a
             then fadd (textHeight st) (fmul (float_of_int (baseSize font)) (Finite 1.5))
             else textHeight st)"
proof -
  obtain letter n where d: "GetNextCodepoint text i = Some (letter, n)"
    using assms by (auto simp: MeasureTextEx_body_def split: option.splits)
  obtain k where k: "GetGlyphIndex font letter = Some k"
    using assms d by (auto simp: MeasureTextEx_body_def split: option.splits)
  have "textHeight st' =
            (if letter = 0x0a
             then fadd (textHeight st) (fmul (float_of_int (baseSize font)) (Finite 1.5))
             else textHeight st)"
  proof (cases "letter = 0x0a")
    case True
    then show ?thesis using assms d k
      by (auto simp: MeasureTextEx_body_def measure_step_def Let_def)
  next
    case False
    then show ?thesis using assms d k
      by (auto simp: MeasureTextEx_body_def measure_step_def Let_def split: option.splits)
  qed
  then show ?thesis using d by blast
qed

lemma round32_1: "round32 1 = Finite 1"
  using round32_of_int[of 1] by simp

lemma round32_48: "round32 48 = Finite 48"
  using round32_of_int[of 48] by simp

lemma round32_80: "round32 80 = Finite 80"
  using round32_of_int[of 80] by simp

lemma representable_fmax: "representable a \<Longrightarrow> representable b \<Longrightarrow> representable (fmax a b)"
  by (simp add: fmax_def)

lemma Hi_World_scenario:
  assumes bs: "baseSize font = 32" and cc: "charsCount font \<le> int (length (chars font))"
    and Hw: "glyph_width font 0x48 = Some wH"
    and iw: "glyph_width font 0x69 = Some wi"
    and Ww: "glyph_width font 0x57 = Some wW"
    and ow: "glyph_width font 0x6f = Some wo"
    and rw: "glyph_width font 0x72 = Some wr"
    and lw: "glyph_width font 0x6c = Some wl"
    and dw: "glyph_width font 0x64 = Some wd"
  shows "MeasureTextEx font Hi_World (Finite 32) (Finite 0) =
    Some \<lparr>vec_x = fmax (fmax (Finite 0) (fadd wH wi)) (fadd (fadd (fadd (fadd wW wo) wr) wl) wd),
          vec_y = Finite (32 + 1.5 * 32)\<rparr>"
proof -
  obtain k where nl: "GetGlyphIndex font 0x0a = Some k"
    using GetGlyphIndex_defined[OF cc] by blast
  have len: "strlen Hi_World = Some 8" by (simp add: Hi_World_def)
  have d0: "GetNextCodepoint Hi_World 0 = Some (0x48, 1)"
    by (simp add: Hi_World_def GetNextCodepoint_def peek_def finish_def)
  have d1: "GetNextCodepoint Hi_World (Suc 0) = Some (0x69, 1)"
    by (simp add: Hi_World_def GetNextCodepoint_def peek_def finish_def)
  have d3: "GetNextCodepoint Hi_World (Suc (Suc (Suc 0))) = Some (0x57, 1)"
    by (simp add: Hi_World_def GetNextCodepoint_def peek_def finish_def)
  have d4: "GetNextCodepoint Hi_World (Suc (Suc (Suc (Suc 0)))) = Some (0x6f, 1)"
    by (simp add: Hi_World_def GetNextCodepoint_def peek_def finish_def)
  have d5: "GetNextCodepoint Hi_World (Suc (Suc (Suc (Suc (Suc 0))))) = Some (0x72, 1)"
    by (simp add: Hi_World_def GetNextCodepoint_def peek_def finish_def)
  have d6: "GetNextCodepoint Hi_World (Suc (Suc (Suc (Suc (Suc (Suc 0)))))) = Some (0x6c, 1)"
    by (simp add: Hi_World_def GetNextCodepoint_def peek_def finish_def)
  have d7: "GetNextCodepoint Hi_World (Suc (Suc (Suc (Suc (Suc (Suc (Suc 0))))))) = Some (0x64, 1)"
    by (simp add: Hi_World_def GetNextCodepoint_def peek_def finish_def)
  have d2: "GetNextCodepoint Hi_World (Suc (Suc 0)) = Some (0x0a, 1)"
    by (simp add: Hi_World_def GetNextCodepoint_def peek_def finish_def)
  note b0 = MeasureTextEx_body_glyph[OF d0 _ Hw, simplified]
  note b1 = MeasureTextEx_body_glyph[OF d1 _ iw, simplified]
  note b3 = MeasureTextEx_body_glyph[OF d3 _ Ww, simplified]
  note b4 = MeasureTextEx_body_glyph[OF d4 _ ow, simplified]
  note b5 = MeasureTextEx_body_glyph[OF d5 _ rw, simplified]
  note b6 = MeasureTextEx_body_glyph[OF d6 _ lw, simplified]
  note b7 = MeasureTextEx_body_glyph[OF d7 _ dw, simplified]
  note b2 = MeasureTextEx_body_newline[OF d2 nl, simplified]
  note r = glyph_width_representable[OF Hw] glyph_width_representable[OF Ww]
  define l1 where "l1 = fadd wH wi"
  define l2 where "l2 = fadd (fadd (fadd (fadd wW wo) wr) wl) wd"
  have L: "MeasureTextEx_loop font Hi_World 8 0
          \<lparr>tempLen = 0, lenCounter = 0, textWidth = Finite 0, tempTextWidth = Finite 0,
           textHeight = Finite 32\<rparr>
        = Some \<lparr>tempLen = 5, lenCounter = 5, textWidth = l2,
                 tempTextWidth = fmax (Finite 0) l1, textHeight = Finite 80\<rparr>"
    by (simp add: b0 b1 b2 b3 b4 b5 b6 b7 bs float_of_int_32 round32_48 round32_80 r
          fadd_zero_left l1_def l2_def)
  define w where "w = fmax (fmax (Finite 0) l1) l2"
  have rw: "representable w"
    unfolding w_def
    by (intro representable_fmax) (simp_all add: l1_def l2_def representable_fadd round32_def)
  have x: "fadd (fmul w (Finite 1)) (Finite 0) = w"
    using rw by (simp add: fmul_one_right fadd_zero_right)
  have W: "(if flt (fmax (Finite 0) l1) l2 then l2 else fmax (Finite 0) l1) = w"
    unfolding w_def by (subst (3) fmax_def) (rule refl)
  have "MeasureTextEx font Hi_World (Finite 32) (Finite 0) = Some \<lparr>vec_x = w, vec_y = Finite 80\<rparr>"
    by (simp add: MeasureTextEx_def measure_result_def len bs float_of_int_32 L round32_1
          float_of_int_4 round32_zero round32_80 W x Let_def
          del: MeasureTextEx_loop.simps split del: if_split cong: if_cong)
  then show ?thesis by (simp add: w_def l1_def l2_def)
qed

text \<open>
  Claim C9, as amended. One pass of the loop of \<open>MeasureTextEx\<close> adds \<open>1.5 \<times>\<close> base size
  to the height when the codepoint is a newline and leaves the height as it is otherwise.
  The height starts at one base size, so for \<open>"Hi\nWorld"\<close> at size 32 with spacing 0 on
  a font of base size 32 the height is \<open>32 + 1.5 \<times> 32 = 80\<close>, and the width is the wider
  of the two lines' accumulated advances (and not below 0). The sums are those of the
  source, in single precision.
\<close>

theorem MeasureTextEx_line_height:
  "(MeasureTextEx_body font text i st = Some (i', st') \<longrightarrow>
      (\<exists>letter n. GetNextCodepoint text i = Some (letter, n) \<and>
          textHeight st' =
            (if letter = 0x0a
             then fadd (textHeight st) (fmul (float_of_int (baseSize font)) (Finite 1.5))
             else textHeight st))) \<and>
   (baseSize font32 = 32 \<and> charsCount font32 \<le> int (length (chars font32)) \<and>
    glyph_width font32 0x48 = Some wH \<and> glyph_width font32 0x69 = Some wi \<and>
    glyph_width font32 0x57 = Some wW \<and> glyph_width font32 0x6f = Some wo \<and>
    glyph_width font32 0x72 = Some wr \<and> glyph_width font32 0x6c = Some wl \<and>
    glyph_width font32 0x64 = Some wd \<longrightarrow>
      MeasureTextEx font32 Hi_World (Finite 32) (Finite 0) =
        Some \<lparr>vec_x = fmax (fmax (Finite 0) (fadd wH wi))
                          (fadd (fadd (fadd (fadd wW wo) wr) wl) wd),
              vec_y = Finite (32 + 1.5 * 32)\<rparr>)"
  using MeasureTextEx_body_height[of font "text" i st i' st']
    Hi_World_scenario[of font32 wH wi wW wo wr wl wd] by blast

text \<open>The font with the default layout, every advance 10: the pass over the newline
  and the whole measurement.\<close>

theorem MeasureTextEx_line_height_witness:
  "baseSize ascii_font = 32 \<and> glyph_width ascii_font 0x57 = Some (Finite 10) \<and>
   MeasureTextEx ascii_font Hi_World (Finite 32) (Finite 0)
     = Some \<lparr>vec_x = Finite 50, vec_y = Finite 80\<rparr> \<and>
   (\<exists>st'. MeasureTextEx_body ascii_font Hi_World 2
            \<lparr>tempLen = 2, lenCounter = 2, textWidth = Finite 20, tempTextWidth = Finite 0,
             textHeight = Finite 32\<rparr>
           = Some (2, st') \<and> textHeight st' = Finite 80)"
proof -
  have g: "glyph_width ascii_font 0x48 = Some (Finite 10)" "glyph_width ascii_font 0x69 = Some (Finite 10)"
    "glyph_width ascii_font 0x57 = Some (Finite 10)" "glyph_width ascii_font 0x6f = Some (Finite 10)"
    "glyph_width ascii_font 0x72 = Some (Finite 10)" "glyph_width ascii_font 0x6c = Some (Finite 10)"
    "glyph_width ascii_font 0x64 = Some (Finite 10)"
    by code_simp+
  have b: "baseSize ascii_font = 32" "charsCount ascii_font \<le> int (length (chars ascii_font))"
    by (simp_all add: ascii_font_def)
  define st' where "st' = \<lparr>tempLen = 2, lenCounter = 0, textWidth = Finite 0,
      tempTextWidth = Finite 20, textHeight = Finite 80\<rparr>"
  have s: "MeasureTextEx_body ascii_font Hi_World 2
            \<lparr>tempLen = 2, lenCounter = 2, textWidth = Finite 20, tempTextWidth = Finite 0,
             textHeight = Finite 32\<rparr>
           = Some (2, st')"
    unfolding st'_def by code_simp
  have d: "GetNextCodepoint Hi_World 2 = Some (0x0a, 1)" by code_simp
  have h: "fadd (Finite 32) (fmul (float_of_int 32) (Finite 1.5)) = Finite 80" by code_simp
  have w: "fmax (fmax (Finite 0) (fadd (Finite 10) (Finite 10)))
             (fadd (fadd (fadd (fadd (Finite 10) (Finite 10)) (Finite 10)) (Finite 10)) (Finite 10))
           = Finite 50" by code_simp
  note t = MeasureTextEx_line_height[of ascii_font Hi_World 2
      "\<lparr>tempLen = 2, lenCounter = 2, textWidth = Finite 20, tempTextWidth = Finite 0,
        textHeight = Finite 32\<rparr>"
      2 st' ascii_font "Finite 10" "Finite 10" "Finite 10" "Finite 10" "Finite 10" "Finite 10"
      "Finite 10"]
  have "textHeight st' = fadd (Finite 32) (fmul (float_of_int 32) (Finite 1.5))"
    using t s d b(1) by (simp del: fadd.simps fmul.simps)
  then have "textHeight st' = Finite 80" unfolding h .
  moreover have "MeasureTextEx ascii_font Hi_World (Finite 32) (Finite 0)
      = Some \<lparr>vec_x = Finite 50, vec_y = Finite 80\<rparr>"
    using t g b unfolding w by simp
  ultimately show ?thesis using b g s by blast
qed

text \<open>
  Claim C9 as stated fails on the font with the default layout: the height of
  \<open>"Hi\nWorld"\<close> is 80, not \<open>1.5 \<times> 32 \<times> 2 = 96\<close> (times the size ratio 1).
\<close>

theorem MeasureTextEx_line_height_counterexample:
  "MeasureTextEx ascii_font Hi_World (Finite 32) (Finite 0)
     = Some \<lparr>vec_x = Finite 50, vec_y = Finite 80\<rparr> \<and>
   (80::real) \<noteq> 1.5 * 32 * 2 * (32 / 32)"
proof -
  have "MeasureTextEx ascii_font Hi_World (Finite 32) (Finite 0)
     = Some \<lparr>vec_x = Finite 50, vec_y = Finite 80\<rparr>" by code_simp
  then show ?thesis by simp
qed

subsection \<open>Measurement of the empty string\<close>

lemma representable_fneg: "representable a \<Longrightarrow> representable (fneg a)"
  by (cases a) (simp_all add: round32_minus)

text \<open>
  Claim C10, as amended. When the scale factor \<open>fontSize/(float)font.baseSize\<close> is a
  finite number \<open>s\<close>, measuring the empty string gives the width \<open>- spacing\<close> and the
  height \<open>(float)font.baseSize \<times> s\<close>, one scaled line in single precision. When the
  target size is the base size itself (not 0, at most \<open>2\<^sup>2\<^sup>4\<close> in magnitude), that height
  is the target size. The spacing is a value that a \<open>float\<close> variable holds, as every
  argument of the C function is.
\<close>

theorem MeasureTextEx_empty:
  "(fdiv fontSize (float_of_int (baseSize font)) = Finite s \<and> representable spacing \<longrightarrow>
      MeasureTextEx font (0 # rest) fontSize spacing
        = Some \<lparr>vec_x = fneg spacing, vec_y = fmul (float_of_int (baseSize font)) (Finite s)\<rparr>) \<and>
   (baseSize font \<noteq> 0 \<and> \<bar>baseSize font\<bar> \<le> 2 ^ 24 \<and> representable spacing \<longrightarrow>
      MeasureTextEx font (0 # rest) (float_of_int (baseSize font)) spacing
        = Some \<lparr>vec_x = fneg spacing, vec_y = float_of_int (baseSize font)\<rparr>)"
proof -
  have x: "fadd (Finite 0) (fmul (float_of_int (0 - 1)) spacing) = fneg spacing"
    if "representable spacing"
    using that representable_fneg[OF that]
    by (simp add: float_of_int_minus_1 fmul_minus_one_left fadd_zero_left)
  have 1: "MeasureTextEx font (0 # rest) fontSize spacing
        = Some \<lparr>vec_x = fneg spacing, vec_y = fmul (float_of_int (baseSize font)) (Finite s)\<rparr>"
    if "fdiv fontSize (float_of_int (baseSize font)) = Finite s" "representable spacing"
    for fontSize s
    using that(1) x[OF that(2)] by (simp add: MeasureTextEx_def measure_result_def round32_zero)
  have 2: "MeasureTextEx font (0 # rest) (float_of_int (baseSize font)) spacing
        = Some \<lparr>vec_x = fneg spacing, vec_y = float_of_int (baseSize font)\<rparr>"
    if b: "baseSize font \<noteq> 0" "\<bar>baseSize font\<bar> \<le> 2 ^ 24" and r: "representable spacing"
  proof -
    have f: "float_of_int (baseSize font) = Finite (real_of_int (baseSize font))"
      using b(2) by (rule float_of_int_small)
    have d: "fdiv (float_of_int (baseSize font)) (float_of_int (baseSize font)) = Finite 1"
      using b(1) by (simp add: f round32_1)
    have "fmul (float_of_int (baseSize font)) (Finite 1) = float_of_int (baseSize font)"
      by (rule fmul_one_right) (rule representable_float_of_int)
    then show ?thesis using 1[OF d r] by simp
  qed
  show ?thesis using 1 2 by blast
qed

text \<open>The font with the default layout (base size 32) at size 20 and at size 32, with
  spacing 3.\<close>

theorem MeasureTextEx_empty_witness:
  "fdiv (Finite 20) (float_of_int (baseSize ascii_font)) = Finite 0.625 \<and>
   representable (Finite 3) \<and>
   MeasureTextEx ascii_font [0] (Finite 20) (Finite 3)
     = Some \<lparr>vec_x = Finite (- 3), vec_y = Finite 20\<rparr> \<and>
   MeasureTextEx ascii_font [0] (Finite 32) (Finite 3)
     = Some \<lparr>vec_x = Finite (- 3), vec_y = Finite 32\<rparr>"
proof -
  have s: "fdiv (Finite 20) (float_of_int (baseSize ascii_font)) = Finite 0.625" by code_simp
  have r: "representable (Finite 3)" by code_simp
  have h: "fmul (float_of_int (baseSize ascii_font)) (Finite 0.625) = Finite 20" by code_simp
  have b: "baseSize ascii_font \<noteq> 0" "\<bar>baseSize ascii_font\<bar> \<le> 2 ^ 24"
    "float_of_int (baseSize ascii_font) = Finite 32"
    by (simp_all add: ascii_font_def float_of_int_32)
  note t = MeasureTextEx_empty[of "Finite 20" ascii_font "0.625" "Finite 3" "[]"]
  have "MeasureTextEx ascii_font [0] (Finite 20) (Finite 3)
     = Some \<lparr>vec_x = Finite (- 3), vec_y = Finite 20\<rparr>"
    using t s r h by (simp del: fmul.simps fdiv.simps representable.simps)
  moreover have "MeasureTextEx ascii_font [0] (Finite 32) (Finite 3)
     = Some \<lparr>vec_x = Finite (- 3), vec_y = Finite 32\<rparr>"
    using t r b by (simp del: fmul.simps fdiv.simps representable.simps)
  ultimately show ?thesis using s r by blast
qed

text \<open>
  Claim C10 as stated fails in two ways. At base size 11 and target size 13 the scale
  factor \<open>13/11\<close> is rounded, and so is its product with 11: the height is
  \<open>13 - 2\<^sup>-\<^sup>2\<^sup>0\<close>, less than the target size. At base size 0 the scale factor is an
  infinity, and both the width and the height are NaN.
\<close>

theorem MeasureTextEx_empty_counterexample:
  "MeasureTextEx (ascii_font\<lparr>baseSize := 11\<rparr>) [0] (Finite 13) (Finite 0)
     = Some \<lparr>vec_x = Finite 0, vec_y = Finite (13631487 / 1048576)\<rparr> \<and>
   (13631487 / 1048576 :: real) < 13 \<and>
   MeasureTextEx (ascii_font\<lparr>baseSize := 0\<rparr>) [0] (Finite 13) (Finite 2)
     = Some \<lparr>vec_x = NaN, vec_y = NaN\<rparr>"
proof -
  have "MeasureTextEx (ascii_font\<lparr>baseSize := 11\<rparr>) [0] (Finite 13) (Finite 0)
     = Some \<lparr>vec_x = Finite 0, vec_y = Finite (13631487 / 1048576)\<rparr>" by code_simp
  moreover have "MeasureTextEx (ascii_font\<lparr>baseSize := 0\<rparr>) [0] (Finite 13) (Finite 2)
     = Some \<lparr>vec_x = NaN, vec_y = NaN\<rparr>" by code_simp
  ultimately show ?thesis by simp
qed

subsection \<open>The two loops make the same passes\<close>










end
